theory Spec2Isabelle
  imports Complex_Main "HOL-Library.Word"
begin

section \<open>Data model of the mask editor\<close>

text \<open>
  The editor exists twice in the repository: the standalone page \<open>EditPage\<close> and the
  embedded \<open>ImageEditPanel\<close>.  Both keep a paint canvas, the natural size of the source
  image and two stacks of \<open>ImageData\<close> snapshots.  One record holds the state of either
  component; the panel calls its undo stack \<open>history\<close> and its paint mode \<open>tool\<close>, and
  uses none of the selection fields.  Functions of the panel carry the suffix \<open>_panel\<close>.

  Typed arrays (\<open>Uint8ClampedArray\<close>, \<open>Uint8Array\<close>) are lists of 8-bit words.  A read
  past the end of a typed array gives \<open>undefined\<close> in JavaScript and a write there is
  ignored; \<open>rd\<close> makes the first explicit, and \<open>xs[i := v]\<close> already behaves like the
  second.

  JavaScript numbers are modelled by integers where the source only counts pixels and by
  exact rationals where it divides (\<open>scaleX\<close>, \<open>ratio\<close>, pointer coordinates).
  Handlers are modelled as run one after the other, each on the state the previous one
  left; a state updater passed to \<open>setUndoStack\<close> is evaluated at the call.
\<close>

type_synonym byte = "8 word"

datatype error = IndexSizeError

record imageData =
  iwidth :: nat
  iheight :: nat
  idata :: "byte list"

record canvas =
  cwidth :: nat
  cheight :: nat
  ctx2d :: bool
  cdata :: "byte list"

record image =
  naturalWidth :: nat
  naturalHeight :: nat
  raster :: "nat \<Rightarrow> nat \<Rightarrow> byte list"

datatype toolMode = Paint | Move | Select

datatype paintMode = Erase | Restore

datatype selectMode = Include | Exclude

record editor =
  canvasRef :: "canvas option"
  imgRef :: "image option"
  naturalSize :: "nat \<times> nat"
  selectionMaskRef :: "byte list option"
  hasSmartSelection :: bool
  undoStack :: "imageData list"
  redoStack :: "imageData list"
  toolMode :: toolMode
  paintMode :: paintMode
  selectMode :: selectMode
  brushSize :: rat
  drawing :: bool

text \<open>
  \<open>ctx2d\<close> says whether \<open>canvas.getContext("2d")\<close> yields a context.  \<open>raster img w h\<close> is
  the pixel buffer the browser produces for \<open>drawImage(img, 0, 0, w, h)\<close> followed by
  \<open>getImageData(0, 0, w, h)\<close>; the resampling filter is the browser's and stays a
  parameter.  The arc fill of the brush is a parameter for the same reason: a
  \<open>rasteriser\<close> maps paint mode, centre, radius and canvas to the new pixel buffer.
\<close>

type_synonym rasteriser = "paintMode \<Rightarrow> rat \<Rightarrow> rat \<Rightarrow> rat \<Rightarrow> canvas \<Rightarrow> byte list"

definition rd :: "byte list \<Rightarrow> nat \<Rightarrow> byte option" where
  "rd d i = (if i < length d then Some (d ! i) else None)"



subsection \<open>Canvas 2D operations used by the editor\<close>

text \<open>
  \<open>getImageData(0, 0, canvas.width, canvas.height)\<close> copies the whole bitmap into a new
  \<open>ImageData\<close>; it raises \<open>IndexSizeError\<close> when the rectangle is empty.
  \<open>putImageData(img, 0, 0)\<close> writes the pixels of \<open>img\<close> that fall inside the canvas.
\<close>

definition getImageData :: "canvas \<Rightarrow> error + imageData" where
  "getImageData c =
     (if cwidth c = 0 \<or> cheight c = 0 then Inl IndexSizeError
      else Inr \<lparr>iwidth = cwidth c, iheight = cheight c, idata = cdata c\<rparr>)"

definition putImageData :: "imageData \<Rightarrow> canvas \<Rightarrow> canvas" where
  "putImageData img c =
     c\<lparr>cdata :=
         map (\<lambda>i. let p = i div 4; x = p mod cwidth c; y = p div cwidth c;
                      j = (y * iwidth img + x) * 4 + i mod 4
                  in if x < iwidth img \<and> y < iheight img \<and> j < length (idata img)
                     then idata img ! j else cdata c ! i)
             [0..<length (cdata c)]\<rparr>"

text \<open>\<open>Array.prototype.slice(start)\<close>: a negative start counts from the end.\<close>

definition array_slice :: "int \<Rightarrow> 'a list \<Rightarrow> 'a list" where
  "array_slice start xs =
     (let len = int (length xs);
          k = (if start < 0 then max (len + start) 0 else min start len)
      in drop (nat k) xs)"

section \<open>History manager\<close>

subsection \<open>Standalone editor page\<close>

definition saveSnapshot :: "editor \<Rightarrow> error + editor" where
  "saveSnapshot s =
     (case canvasRef s of
        None \<Rightarrow> Inr s
      | Some canvas \<Rightarrow>
          if \<not> ctx2d canvas then Inr s
          else (case getImageData canvas of
                  Inl e \<Rightarrow> Inl e
                | Inr snap \<Rightarrow>
                    Inr (s\<lparr>undoStack := array_slice (- 30) (undoStack s) @ [snap],
                           redoStack := []\<rparr>)))"

definition undo :: "editor \<Rightarrow> error + editor" where
  "undo s =
     (case canvasRef s of
        None \<Rightarrow> Inr s
      | Some canvas \<Rightarrow>
          if undoStack s = [] then Inr s
          else if \<not> ctx2d canvas then Inr s
          else (case getImageData canvas of
                  Inl e \<Rightarrow> Inl e
                | Inr currentState \<Rightarrow>
                    let prev = butlast (undoStack s); lst = last (undoStack s)
                    in Inr (s\<lparr>canvasRef := Some (putImageData lst canvas),
                              undoStack := prev,
                              redoStack := redoStack s @ [currentState]\<rparr>)))"


subsection \<open>Embedded edit panel\<close>

definition saveSnapshot_panel :: "editor \<Rightarrow> error + editor" where
  "saveSnapshot_panel s =
     (case canvasRef s of
        None \<Rightarrow> Inr s
      | Some canvas \<Rightarrow>
          if \<not> ctx2d canvas then Inr s
          else (case getImageData canvas of
                  Inl e \<Rightarrow> Inl e
                | Inr snap \<Rightarrow>
                    Inr (s\<lparr>undoStack := array_slice (- 20) (undoStack s) @ [snap],
                           redoStack := []\<rparr>)))"



section \<open>Brush paint engine\<close>

definition draw :: "rasteriser \<Rightarrow> rat \<Rightarrow> rat \<Rightarrow> editor \<Rightarrow> editor" where
  "draw fill x y s =
     (if toolMode s \<noteq> Paint then s
      else case canvasRef s of
             None \<Rightarrow> s
           | Some canvas \<Rightarrow>
               if \<not> ctx2d canvas then s
               else s\<lparr>canvasRef :=
                        Some (canvas\<lparr>cdata := fill (paintMode s) x y (brushSize s / 2) canvas\<rparr>)\<rparr>)"

definition drawStroke_panel :: "rasteriser \<Rightarrow> rat \<Rightarrow> rat \<Rightarrow> editor \<Rightarrow> editor" where
  "drawStroke_panel fill x y s =
     (case canvasRef s of
        None \<Rightarrow> s
      | Some canvas \<Rightarrow>
          if \<not> ctx2d canvas then s
          else s\<lparr>canvasRef :=
                   Some (canvas\<lparr>cdata := fill (paintMode s) x y (brushSize s / 2) canvas\<rparr>)\<rparr>)"

subsection \<open>Recorded strokes\<close>

text \<open>
  A recorded stroke is one \<open>saveSnapshot\<close> followed by the stamps of the stroke, as
  \<open>onPointerDown\<close>/\<open>onTouchStart\<close> and the move handlers perform them.  An exception
  raised by \<open>saveSnapshot\<close> ends the handler before anything is drawn.
\<close>

definition recordedStroke :: "rasteriser \<Rightarrow> (rat \<times> rat) list \<Rightarrow> editor \<Rightarrow> error + editor" where
  "recordedStroke fill pts s =
     (case saveSnapshot s of
        Inl e \<Rightarrow> Inl e
      | Inr s' \<Rightarrow> Inr (fold (\<lambda>(x, y). draw fill x y) pts s'))"

definition recordedStroke_panel ::
    "rasteriser \<Rightarrow> (rat \<times> rat) list \<Rightarrow> editor \<Rightarrow> error + editor" where
  "recordedStroke_panel fill pts s =
     (case saveSnapshot_panel s of
        Inl e \<Rightarrow> Inl e
      | Inr s' \<Rightarrow> Inr (fold (\<lambda>(x, y). drawStroke_panel fill x y) pts s'))"

fun runAll :: "('a \<Rightarrow> 's \<Rightarrow> error + 's) \<Rightarrow> 'a list \<Rightarrow> 's \<Rightarrow> error + 's" where
  "runAll f [] s = Inr s"
| "runAll f (a # as) s = (case f a s of Inl e \<Rightarrow> Inl e | Inr s' \<Rightarrow> runAll f as s')"

fun repeat :: "nat \<Rightarrow> ('s \<Rightarrow> error + 's) \<Rightarrow> 's \<Rightarrow> error + 's" where
  "repeat 0 f s = Inr s"
| "repeat (Suc n) f s = (case f s of Inl e \<Rightarrow> Inl e | Inr s' \<Rightarrow> repeat n f s')"

subsection \<open>A concrete session used to evaluate the model\<close>

text \<open>
  \<open>discFill\<close> is a plain rasteriser without anti-aliasing: a pixel whose centre lies in
  the disc receives the marker colour in erase mode (its alpha grows by half of what is
  missing to 255) and becomes transparent in restore mode.
\<close>

definition discFill :: rasteriser where
  "discFill m x y r c =
     map (\<lambda>i. let p = i div 4; k = i mod 4;
                  px = of_nat (p mod cwidth c) + 1 / 2; py = of_nat (p div cwidth c) + 1 / 2;
                  old = cdata c ! i
              in if (px - x) * (px - x) + (py - y) * (py - y) \<le> r * r
                 then (case m of
                         Erase \<Rightarrow> (if k = 0 then 255 else if k = 3
                                    then old + word_of_nat ((256 - unat old) div 2) else 50)
                       | Restore \<Rightarrow> 0)
                 else old)
         [0..<length (cdata c)]"

definition blankCanvas :: "nat \<Rightarrow> nat \<Rightarrow> canvas" where
  "blankCanvas w h = \<lparr>cwidth = w, cheight = h, ctx2d = True, cdata = replicate (4 * (w * h)) 0\<rparr>"

definition freshEditor :: "canvas option \<Rightarrow> image option \<Rightarrow> editor" where
  "freshEditor c img =
     \<lparr>canvasRef = c, imgRef = img,
      naturalSize = (case img of None \<Rightarrow> (0, 0) | Some i \<Rightarrow> (naturalWidth i, naturalHeight i)),
      selectionMaskRef = None, hasSmartSelection = False,
      undoStack = [], redoStack = [],
      toolMode = Paint, paintMode = Erase, selectMode = Include,
      brushSize = 78, drawing = False\<rparr>"

section \<open>Flood-fill selector\<close>

text \<open>
  \<open>Math.round\<close> rounds half up.  A channel difference with an \<open>undefined\<close> operand is
  \<open>NaN\<close>, and \<open>NaN > n\<close> is false, so a pixel read out of range is never rejected.
\<close>

definition js_round :: "rat \<Rightarrow> int" where
  "js_round x = \<lfloor>x + 1 / 2\<rfloor>"

definition tolerance :: int where
  "tolerance = 32"

definition channelDiff :: "byte option \<Rightarrow> byte option \<Rightarrow> int option" where
  "channelDiff a b =
     (case a of None \<Rightarrow> None
      | Some x \<Rightarrow> (case b of None \<Rightarrow> None | Some y \<Rightarrow> Some \<bar>uint x - uint y\<bar>))"

type_synonym seed = "byte option \<times> byte option \<times> byte option"

fun exceedsTolerance :: "byte list \<Rightarrow> seed \<Rightarrow> nat \<Rightarrow> bool" where
  "exceedsTolerance data (seedR, seedG, seedB) pos =
     (let pi = pos * 4 in
      case channelDiff (rd data pi) seedR of None \<Rightarrow> False
      | Some dr \<Rightarrow>
         (case channelDiff (rd data (pi + 1)) seedG of None \<Rightarrow> False
          | Some dg \<Rightarrow>
             (case channelDiff (rd data (pi + 2)) seedB of None \<Rightarrow> False
              | Some db \<Rightarrow> dr + dg + db > tolerance * 3)))"

definition neighbors :: "nat \<Rightarrow> nat \<Rightarrow> nat \<Rightarrow> int list" where
  "neighbors w h pos =
     (let px = pos mod w; py = (pos - px) div w
      in [if px > 0 then int pos - 1 else - 1,
          if int px < int w - 1 then int pos + 1 else - 1,
          if py > 0 then int pos - int w else - 1,
          if int py < int h - 1 then int pos + int w else - 1])"

text \<open>\<open>!visited[n]\<close>: true for an unset entry, and for \<open>undefined\<close>.\<close>

definition unvisited :: "byte list \<Rightarrow> nat \<Rightarrow> bool" where
  "unvisited visited n = (case rd visited n of None \<Rightarrow> True | Some v \<Rightarrow> v = 0)"

fun pushNeighbor :: "byte list \<times> nat list \<Rightarrow> int \<Rightarrow> byte list \<times> nat list" where
  "pushNeighbor (visited, stack) n =
     (if 0 \<le> n \<and> unvisited visited (nat n)
      then (visited[nat n := 1], stack @ [nat n])
      else (visited, stack))"

text \<open>One iteration of the \<open>while\<close> loop; the top of the stack is the last element.\<close>

fun fillStep :: "nat \<Rightarrow> nat \<Rightarrow> byte list \<Rightarrow> seed \<Rightarrow> byte list \<times> nat list
    \<Rightarrow> byte list \<times> nat list" where
  "fillStep w h data seed (visited, stack) =
     (let pos = last stack; rest = butlast stack
      in if exceedsTolerance data seed pos then (visited, rest)
         else foldl pushNeighbor (visited[pos := 2], rest) (neighbors w h pos))"

text \<open>
  The loop with a bound on the number of iterations: \<open>None\<close> when the stack is not empty
  after \<open>fuel\<close> pops.
\<close>

fun fillLoop :: "nat \<Rightarrow> nat \<Rightarrow> nat \<Rightarrow> byte list \<Rightarrow> seed \<Rightarrow> byte list \<times> nat list
    \<Rightarrow> byte list option" where
  "fillLoop 0 w h data seed (visited, stack) = (if stack = [] then Some visited else None)"
| "fillLoop (Suc fuel) w h data seed (visited, stack) =
     (if stack = [] then Some visited
      else fillLoop fuel w h data seed (fillStep w h data seed (visited, stack)))"

definition floodInit :: "nat \<Rightarrow> nat \<Rightarrow> nat \<Rightarrow> nat \<Rightarrow> byte list \<times> nat list" where
  "floodInit w h x0 y0 = ((replicate (w * h) 0)[y0 * w + x0 := 1], [x0 + y0 * w])"

definition seedOf :: "byte list \<Rightarrow> nat \<Rightarrow> nat \<Rightarrow> nat \<Rightarrow> seed" where
  "seedOf data w x0 y0 =
     (let idx = (y0 * w + x0) * 4 in (rd data idx, rd data (idx + 1), rd data (idx + 2)))"

definition floodRegion :: "nat \<Rightarrow> nat \<Rightarrow> nat \<Rightarrow> byte list \<Rightarrow> nat \<Rightarrow> nat \<Rightarrow> byte list option" where
  "floodRegion fuel w h data x0 y0 =
     fillLoop fuel w h data (seedOf data w x0 y0) (floodInit w h x0 y0)"

definition mergeRegion :: "selectMode \<Rightarrow> byte list \<Rightarrow> byte list \<Rightarrow> byte list" where
  "mergeRegion mode visited selMask =
     (case mode of
        Include \<Rightarrow> fold (\<lambda>i m. if visited ! i = 2 then m[i := 1] else m) [0..<length visited] selMask
      | Exclude \<Rightarrow> fold (\<lambda>i m. if visited ! i = 2 then m[i := 0] else m) [0..<length visited] selMask)"

text \<open>
  \<open>floodFillSelect\<close> returns \<open>None\<close> when the traversal is not finished after
  \<open>w * h\<close> iterations, \<open>Some (Inl e)\<close> when an exception leaves the handler and
  \<open>Some (Inr s')\<close> with the new state otherwise.
\<close>

definition floodFillSelect :: "rat \<Rightarrow> rat \<Rightarrow> editor \<Rightarrow> (error + editor) option" where
  "floodFillSelect clickX clickY s =
     (case imgRef s of
        None \<Rightarrow> Some (Inr s)
      | Some img \<Rightarrow>
         (case canvasRef s of
            None \<Rightarrow> Some (Inr s)
          | Some canvas \<Rightarrow>
              let w = cwidth canvas; h = cheight canvas in
              if w = 0 \<or> h = 0 then Some (Inl IndexSizeError)
              else
                let data = raster img w h;
                    x0 = js_round clickX; y0 = js_round clickY in
                if x0 < 0 \<or> x0 \<ge> int w \<or> y0 < 0 \<or> y0 \<ge> int h then Some (Inr s)
                else
                  (case floodRegion (w * h) w h data (nat x0) (nat y0) of
                     None \<Rightarrow> None
                   | Some visited \<Rightarrow>
                       let selMask = (case selectionMaskRef s of
                                     None \<Rightarrow> replicate (w * h) 0
                                   | Some m \<Rightarrow> m);
                           selMask' = mergeRegion (selectMode s) visited selMask
                       in Some (Inr (s\<lparr>selectionMaskRef := Some selMask',
                                       hasSmartSelection := list_ex (\<lambda>v. v = 1) selMask'\<rparr>)))))"

text \<open>The invert button (\<open>button-swap-selection\<close>) and the erase-selection button.\<close>

definition swapSelection :: "editor \<Rightarrow> editor" where
  "swapSelection s =
     (case selectionMaskRef s of
        None \<Rightarrow> s
      | Some selMask \<Rightarrow>
          let selMask' = fold (\<lambda>i m. m[i := (if m ! i \<noteq> 0 then 0 else 1)]) [0..<length selMask] selMask
          in s\<lparr>selectionMaskRef := Some selMask',
               hasSmartSelection := list_ex (\<lambda>v. v = 1) selMask'\<rparr>)"

definition eraseSelection :: "editor \<Rightarrow> editor" where
  "eraseSelection s = s\<lparr>selectionMaskRef := None, hasSmartSelection := False\<rparr>"

section \<open>Mask exporter\<close>

text \<open>
  \<open>fillRect\<close> with \<open>fillStyle = "black"\<close> over the whole mask canvas makes every pixel
  opaque black; the offscreen canvas is new, and its 2D context is taken to exist.  The
  exported data URL is a lossless PNG of the mask canvas; the model returns the canvas.
  The export writes no editor state, so the state it returns is the one it was given.
\<close>

definition fillRectBlack :: "canvas \<Rightarrow> canvas" where
  "fillRectBlack c = c\<lparr>cdata := concat (replicate (cwidth c * cheight c) [0, 0, 0, 255])\<rparr>"

definition painted :: "byte list \<Rightarrow> nat \<Rightarrow> bool" where
  "painted d si = (case rd d (si + 3) of None \<Rightarrow> False | Some alpha \<Rightarrow> alpha > 10)"

definition clearBlock :: "nat \<Rightarrow> nat \<Rightarrow> nat \<Rightarrow> nat \<Rightarrow> nat \<Rightarrow> nat \<Rightarrow> byte list \<Rightarrow> byte list" where
  "clearBlock mw mh tx ty bw bh md =
     fold (\<lambda>by. fold (\<lambda>bx md.
                        let fx = min (tx + bx) (mw - 1); fy = min (ty + by) (mh - 1);
                            di = (fy * mw + fx) * 4
                        in md[di + 3 := 0])
                     [0..<bw])
          [0..<bh] md"

definition blockStart :: "rat \<Rightarrow> nat \<Rightarrow> nat" where
  "blockStart scale d = nat \<lfloor>of_nat d * scale\<rfloor>"

definition blockSize :: "rat \<Rightarrow> nat" where
  "blockSize scale = max 1 (nat \<lceil>scale\<rceil>)"

definition exportLoop :: "nat \<Rightarrow> nat \<Rightarrow> byte list \<Rightarrow> nat \<Rightarrow> nat \<Rightarrow> byte list \<Rightarrow> byte list" where
  "exportLoop cw ch displayData mw mh maskData =
     (let scaleX = of_nat mw / of_nat cw; scaleY = of_nat mh / of_nat ch
      in fold (\<lambda>dy. fold (\<lambda>dx md.
                            let si = (dy * cw + dx) * 4
                            in if painted displayData si
                               then clearBlock mw mh (blockStart scaleX dx) (blockStart scaleY dy)
                                      (blockSize scaleX) (blockSize scaleY) md
                               else md)
                         [0..<cw])
              [0..<ch] maskData)"

definition exportMask :: "editor \<Rightarrow> (error + canvas option) \<times> editor" where
  "exportMask s =
     (case canvasRef s of
        None \<Rightarrow> (Inr None, s)
      | Some canvas \<Rightarrow>
          if \<not> ctx2d canvas then (Inr None, s)
          else
            let maskCanvas = fillRectBlack (blankCanvas (fst (naturalSize s)) (snd (naturalSize s)))
            in (case getImageData canvas of
                  Inl e \<Rightarrow> (Inl e, s)
                | Inr displayData \<Rightarrow>
                   (case getImageData maskCanvas of
                      Inl e \<Rightarrow> (Inl e, s)
                    | Inr maskData \<Rightarrow>
                        let md = exportLoop (cwidth canvas) (cheight canvas) (idata displayData)
                                   (cwidth maskCanvas) (cheight maskCanvas) (idata maskData)
                        in (Inr (Some (putImageData (maskData\<lparr>idata := md\<rparr>) maskCanvas)), s))))"

section \<open>Display surface manager\<close>

text \<open>
  The sizing effects of the page and of the panel.  \<open>displaySize\<close> gives the width and
  height as computed, before the assignment to \<open>canvas.width\<close> and \<open>canvas.height\<close>
  truncates them to whole pixels.  With a natural width or height of zero the quotient
  is not a finite number; the model gives \<open>None\<close> there.
\<close>

definition displaySize :: "nat \<Rightarrow> nat \<Rightarrow> nat \<Rightarrow> nat \<Rightarrow> (rat \<times> rat) option" where
  "displaySize natW natH clientWidth clientHeight =
     (if natW = 0 \<or> natH = 0 then None
      else
        let maxW = of_nat clientWidth;
            maxH = (if clientHeight = 0 then 600 else of_nat clientHeight);
            ratio = of_nat natH / of_nat natW;
            displayW = min maxW 900;
            displayH = displayW * ratio
        in if displayH > maxH then Some (maxH / ratio, maxH) else Some (displayW, displayH))"

definition displaySize_panel :: "nat \<Rightarrow> nat \<Rightarrow> nat \<Rightarrow> nat \<Rightarrow> (rat \<times> rat) option" where
  "displaySize_panel natW natH clientWidth clientHeight =
     (if natW = 0 \<or> natH = 0 then None
      else
        let maxW = of_nat clientWidth;
            maxH = of_nat clientHeight;
            imgRatio = of_nat natW / of_nat natH;
            displayW = min maxW (of_nat natW);
            displayH = displayW / imgRatio
        in if displayH > maxH then Some (maxH * imgRatio, maxH) else Some (displayW, displayH))"

definition toPixels :: "rat \<Rightarrow> nat" where
  "toPixels x = nat \<lfloor>x\<rfloor>"

definition resizeCanvas :: "rat \<times> rat \<Rightarrow> canvas \<Rightarrow> canvas" where
  "resizeCanvas d canvas =
     canvas\<lparr>cwidth := toPixels (fst d), cheight := toPixels (snd d),
            cdata := replicate (4 * (toPixels (fst d) * toPixels (snd d))) 0\<rparr>"

definition sizeCanvas :: "bool \<Rightarrow> (nat \<times> nat) option \<Rightarrow> editor \<Rightarrow> editor option" where
  "sizeCanvas imgLoaded container s =
     (if \<not> imgLoaded then Some s
      else case canvasRef s of
             None \<Rightarrow> Some s
           | Some canvas \<Rightarrow>
              (case container of
                 None \<Rightarrow> Some s
               | Some (clientWidth, clientHeight) \<Rightarrow>
                  (case displaySize (fst (naturalSize s)) (snd (naturalSize s))
                          clientWidth clientHeight of
                     None \<Rightarrow> None
                   | Some d \<Rightarrow>
                       Some (s\<lparr>canvasRef := Some (resizeCanvas d canvas),
                               selectionMaskRef := None,
                               hasSmartSelection := False\<rparr>))))"

definition sizeCanvas_panel :: "bool \<Rightarrow> (nat \<times> nat) option \<Rightarrow> editor \<Rightarrow> editor option" where
  "sizeCanvas_panel imgLoaded container s =
     (if \<not> imgLoaded then Some s
      else case canvasRef s of
             None \<Rightarrow> Some s
           | Some canvas \<Rightarrow>
              (case container of
                 None \<Rightarrow> Some s
               | Some (clientWidth, clientHeight) \<Rightarrow>
                  (case displaySize_panel (fst (naturalSize s)) (snd (naturalSize s))
                          clientWidth clientHeight of
                     None \<Rightarrow> None
                   | Some d \<Rightarrow> Some (s\<lparr>canvasRef := Some (resizeCanvas d canvas)\<rparr>))))"

section \<open>Vocabulary of the claims and of the proofs\<close>

subsection \<open>History\<close>

text \<open>
  \<open>bindE\<close> sequences fallible steps.  \<open>frames c ds\<close> are the snapshots of a canvas of the
  size of \<open>c\<close> with the pixel buffers \<open>ds\<close>; \<open>records_one cap rec\<close> says that \<open>rec\<close>, run on
  a history of at most \<open>cap\<close> entries, appends the snapshot of the canvas, empties the
  redo stack and changes nothing but the pixels.  \<open>session n\<close> is \<open>n\<close> recorded strokes on
  a blank canvas of one pixel.
\<close>

definition bindE :: "error + 'a \<Rightarrow> ('a \<Rightarrow> error + 'b) \<Rightarrow> error + 'b" where
  "bindE m f = (case m of Inl e \<Rightarrow> Inl e | Inr a \<Rightarrow> f a)"

definition frames :: "canvas \<Rightarrow> byte list list \<Rightarrow> imageData list" where
  "frames c ds = map (\<lambda>d. \<lparr>iwidth = cwidth c, iheight = cheight c, idata = d\<rparr>) ds"


definition session :: "nat \<Rightarrow> error + editor" where
  "session n =
     runAll (recordedStroke discFill) (replicate n [(1 / 2, 1 / 2)])
       (freshEditor (Some (blankCanvas 1 1)) None)"

definition session_panel :: "nat \<Rightarrow> error + editor" where
  "session_panel n =
     runAll (recordedStroke_panel discFill) (replicate n [(1 / 2, 1 / 2)])
       (freshEditor (Some (blankCanvas 1 1)) None)"

subsection \<open>Mask exporter\<close>





definition clears :: "(byte list \<Rightarrow> byte list) \<Rightarrow> nat set \<Rightarrow> bool" where
  "clears g A \<longleftrightarrow>
     (\<forall>d. length (g d) = length d \<and> (\<forall>j<length d. g d ! j = (if j \<in> A then 0 else d ! j)))"

definition blockIdx :: "nat \<Rightarrow> nat \<Rightarrow> nat \<Rightarrow> nat \<Rightarrow> nat \<Rightarrow> nat \<Rightarrow> nat set" where
  "blockIdx mw mh tx ty bw bh =
     {(min (ty + by) (mh - 1) * mw + min (tx + bx) (mw - 1)) * 4 + 3 |bx by. bx < bw \<and> by < bh}"

definition clearedIdx :: "nat \<Rightarrow> nat \<Rightarrow> byte list \<Rightarrow> nat \<Rightarrow> nat \<Rightarrow> nat set" where
  "clearedIdx cw ch dd mw mh =
     (\<Union>dy\<in>{..<ch}. \<Union>dx\<in>{..<cw}.
        if painted dd ((dy * cw + dx) * 4)
        then blockIdx mw mh (blockStart (of_nat mw / of_nat cw) dx) (blockStart (of_nat mh / of_nat ch) dy)
               (blockSize (of_nat mw / of_nat cw)) (blockSize (of_nat mh / of_nat ch))
        else {})"



subsection \<open>Flood fill\<close>

text \<open>
  \<open>adjacent4 w h p q\<close>: \<open>p\<close> and \<open>q\<close> are pixels of the \<open>w\<close> by \<open>h\<close> grid, next to each
  other in a row or in a column.  \<open>diffSum data p q\<close> is \<open>|dR| + |dG| + |dB|\<close> between the
  pixels \<open>p\<close> and \<open>q\<close>.  \<open>zeros\<close> counts the unvisited entries, and \<open>fillInv\<close> is the
  invariant of the traversal: entries marked 2 passed the tolerance test and have all
  their neighbours visited, entries marked 1 wait on the stack or failed the test.
  \<open>priorMask\<close> is the mask a fill starts from, \<open>inBounds\<close> the bounds check on the
  rounded click point, \<open>bindFill\<close> sequences fills.  \<open>twoPixels r\<close> and \<open>blackWhite\<close> are
  images of two pixels.
\<close>

definition adjacent4 :: "nat \<Rightarrow> nat \<Rightarrow> nat \<Rightarrow> nat \<Rightarrow> bool" where
  "adjacent4 w h p q \<longleftrightarrow>
     p < w * h \<and> q < w * h \<and>
     ((q div w = p div w \<and> (q mod w = p mod w + 1 \<or> q mod w + 1 = p mod w)) \<or>
      (q mod w = p mod w \<and> (q div w = p div w + 1 \<or> q div w + 1 = p div w)))"

definition diffSum :: "byte list \<Rightarrow> nat \<Rightarrow> nat \<Rightarrow> int" where
  "diffSum data p q =
     \<bar>uint (data ! (q * 4)) - uint (data ! (p * 4))\<bar> +
     \<bar>uint (data ! (q * 4 + 1)) - uint (data ! (p * 4 + 1))\<bar> +
     \<bar>uint (data ! (q * 4 + 2)) - uint (data ! (p * 4 + 2))\<bar>"

definition zeros :: "byte list \<Rightarrow> nat" where
  "zeros v = length (filter (\<lambda>b. b = 0) v)"

definition fillInv ::
    "nat \<Rightarrow> nat \<Rightarrow> byte list \<Rightarrow> seed \<Rightarrow> nat \<Rightarrow> byte list \<Rightarrow> nat list \<Rightarrow> bool" where
  "fillInv w h data seed p0 vis st \<longleftrightarrow>
     length vis = w * h \<and> (\<forall>n\<in>set st. n < w * h) \<and> p0 < w * h \<and> vis ! p0 \<noteq> 0 \<and>
     (\<forall>i<w * h. vis ! i = 2 \<longrightarrow> \<not> exceedsTolerance data seed i) \<and>
     (\<forall>i<w * h. vis ! i = 1 \<longrightarrow> i \<in> set st \<or> exceedsTolerance data seed i) \<and>
     (\<forall>i<w * h. vis ! i = 0 \<or> vis ! i = 1 \<or> vis ! i = 2) \<and>
     (\<forall>i<w * h. vis ! i = 2 \<longrightarrow> (\<forall>q. adjacent4 w h i q \<longrightarrow> vis ! q \<noteq> 0))"

definition priorMask :: "editor \<Rightarrow> nat \<Rightarrow> byte list" where
  "priorMask s n = (case selectionMaskRef s of None \<Rightarrow> replicate n 0 | Some m \<Rightarrow> m)"

definition inBounds :: "rat \<Rightarrow> rat \<Rightarrow> canvas \<Rightarrow> bool" where
  "inBounds x y c \<longleftrightarrow>
     0 \<le> js_round x \<and> js_round x < int (cwidth c) \<and> 0 \<le> js_round y \<and> js_round y < int (cheight c)"

definition bindFill ::
    "(error + editor) option \<Rightarrow> (editor \<Rightarrow> (error + editor) option) \<Rightarrow> (error + editor) option" where
  "bindFill m f = (case m of None \<Rightarrow> None | Some (Inl e) \<Rightarrow> Some (Inl e) | Some (Inr s) \<Rightarrow> f s)"

definition twoPixels :: "byte \<Rightarrow> byte list" where
  "twoPixels r = [0, 0, 0, 255, r, 32, 32, 255]"

definition blackWhite :: image where
  "blackWhite = \<lparr>naturalWidth = 2, naturalHeight = 1,
                  raster = (\<lambda>w h. [0, 0, 0, 255, 255, 255, 255, 255])\<rparr>"

section \<open>History manager: proofs\<close>



lemma frames_cdata [simp]: "frames (c\<lparr>cdata := d\<rparr>) ds = frames c ds"
  by (simp add: frames_def)

lemma frames_append [simp]: "frames c (xs @ ys) = frames c xs @ frames c ys"
  by (simp add: frames_def)

lemma frames_Nil [simp]: "frames c [] = []"
  by (simp add: frames_def)

lemma frames_Cons [simp]:
  "frames c (d # ds) = \<lparr>iwidth = cwidth c, iheight = cheight c, idata = d\<rparr> # frames c ds"
  by (simp add: frames_def)

lemma length_frames [simp]: "length (frames c ds) = length ds"
  by (simp add: frames_def)



















text \<open>
  Claim C1: the undo stack is to hold at most the 30 most recent snapshots, so that after
  40 recorded strokes at most 30 undos succeed.  Evaluated on the editor page, 40
  recorded strokes leave 31 snapshots; after 30 undos one entry is left, and the 31st
  undo still moves a snapshot to the redo stack.  The edit panel keeps 21.
\<close>

theorem history_keeps_31_snapshots:
  "map_sum id (\<lambda>s. length (undoStack s)) (session 40) = Inr 31 \<and>
   map_sum id (\<lambda>s. length (undoStack s)) (bindE (session 40) (repeat 30 undo)) = Inr 1 \<and>
   map_sum id (\<lambda>s. (length (undoStack s), length (redoStack s)))
      (bindE (session 40) (repeat 31 undo)) = Inr (0, 31) \<and>
   map_sum id (\<lambda>s. length (undoStack s)) (session_panel 40) = Inr 21"
  unfolding session_def session_panel_def by code_simp

section \<open>Selection, unready surface and export: frame properties\<close>

text \<open>
  Claim C7: with no selection mask, the invert button does nothing.  It raises nothing,
  the mask stays absent and the has-selection flag keeps its value, so a flag that was
  false stays false; nothing is selected.
\<close>

theorem invert_without_selection_is_noop:
  "selectionMaskRef s = None \<Longrightarrow>
     swapSelection s = s \<and> selectionMaskRef (swapSelection s) = None \<and>
     hasSmartSelection (swapSelection s) = hasSmartSelection s"
  by (simp add: swapSelection_def)

theorem invert_without_selection_is_noop_witness:
  "selectionMaskRef (freshEditor None None) = None \<and>
   swapSelection (freshEditor None None) = freshEditor None None \<and>
   selectionMaskRef (swapSelection (freshEditor None None)) = None \<and>
   hasSmartSelection (swapSelection (freshEditor None None)) = False"
proof -
  have h: "selectionMaskRef (freshEditor None None) = None" by (simp add: freshEditor_def)
  have f: "hasSmartSelection (freshEditor None None) = False" by (simp add: freshEditor_def)
  show ?thesis
    using invert_without_selection_is_noop [OF h] h f by simp
qed

lemma fold_draw_no_canvas:
  "canvasRef s = None \<Longrightarrow> fold (\<lambda>(x, y). draw fill x y) pts s = s"
  by (induction pts) (auto simp: draw_def)

text \<open>
  Claim C8: before the canvas is mounted, export and paint are safe no-ops.
  \<open>exportMask\<close> returns \<open>null\<close> without raising, and a stamp, on the page and on the
  panel, as well as a whole recorded stroke, leaves the state as it is.
\<close>

theorem unready_surface_is_noop:
  "canvasRef s = None \<Longrightarrow>
     exportMask s = (Inr None, s) \<and> draw fill x y s = s \<and> drawStroke_panel fill x y s = s \<and>
     recordedStroke fill pts s = Inr s"
  by (simp add: exportMask_def draw_def drawStroke_panel_def recordedStroke_def
      saveSnapshot_def fold_draw_no_canvas)

theorem unready_surface_is_noop_witness:
  "canvasRef (freshEditor None None) = None \<and>
   exportMask (freshEditor None None) = (Inr None, freshEditor None None) \<and>
   draw discFill 3 4 (freshEditor None None) = freshEditor None None \<and>
   drawStroke_panel discFill 3 4 (freshEditor None None) = freshEditor None None \<and>
   recordedStroke discFill [(3, 4), (5, 6)] (freshEditor None None) = Inr (freshEditor None None)"
proof -
  have h: "canvasRef (freshEditor None None) = None" by (simp add: freshEditor_def)
  show ?thesis
    using unready_surface_is_noop [OF h, of discFill 3 4 "[(3, 4), (5, 6)]"] h by simp
qed

text \<open>
  Claim C10: \<open>exportMask\<close> is read-only on the editor state.  Whatever it returns,
  the paint canvas, the selection mask and both history stacks are afterwards what they
  were before, and a second export gives the same result.
\<close>

theorem exportMask_leaves_state:
  "snd (exportMask s) = s \<and>
   canvasRef (snd (exportMask s)) = canvasRef s \<and>
   selectionMaskRef (snd (exportMask s)) = selectionMaskRef s \<and>
   undoStack (snd (exportMask s)) = undoStack s \<and>
   redoStack (snd (exportMask s)) = redoStack s \<and>
   exportMask (snd (exportMask s)) = exportMask s"
proof -
  have "snd (exportMask s) = s"
    by (simp add: exportMask_def Let_def split: option.split sum.split)
  then show ?thesis by simp
qed

section \<open>Display surface manager: aspect lock and bounds\<close>

lemma toPixels_of_nat [simp]: "toPixels (of_nat n) = n"
  by (simp add: toPixels_def)













section \<open>Mask exporter: which native pixels become transparent\<close>





lemma clears_eq: "clears g A \<Longrightarrow> A = B \<Longrightarrow> clears g B"
  by simp



lemma length_opaque [simp]: "length (concat (replicate n [a, b, c, d])) = 4 * n"
  by (induction n) simp_all






lemma blockIdx_mod: "j \<in> blockIdx mw mh tx ty bw bh \<Longrightarrow> j mod 4 = 3"
proof -
  assume "j \<in> blockIdx mw mh tx ty bw bh"
  then obtain q where "j = q * 4 + 3" unfolding blockIdx_def by blast
  then show ?thesis by simp
qed

lemma clearedIdx_mod: "j \<in> clearedIdx cw ch dd mw mh \<Longrightarrow> j mod 4 = 3"
  unfolding clearedIdx_def by (auto split: if_splits dest: blockIdx_mod)

lemma rgb_not_cleared:
  assumes "k < 3"
  shows "p * 4 + k \<notin> clearedIdx cw ch dd mw mh"
proof
  assume "p * 4 + k \<in> clearedIdx cw ch dd mw mh"
  then have "(p * 4 + k) mod 4 = 3" by (rule clearedIdx_mod)
  then show False using assms by simp
qed













section \<open>Flood-fill selector: traversal, termination and tolerance\<close>

lemma zeros_update_le: "v \<noteq> 0 \<Longrightarrow> zeros (xs[i := v]) \<le> zeros xs"
proof (induction xs arbitrary: i)
  case Nil
  then show ?case by (simp add: zeros_def)
next
  case (Cons x xs)
  then show ?case by (cases i) (auto simp: zeros_def le_SucI)
qed

lemma zeros_update_zero:
  "i < length xs \<Longrightarrow> xs ! i = 0 \<Longrightarrow> v \<noteq> 0 \<Longrightarrow> Suc (zeros (xs[i := v])) = zeros xs"
proof (induction xs arbitrary: i)
  case Nil
  then show ?case by simp
next
  case (Cons x xs)
  then show ?case by (cases i) (auto simp: zeros_def)
qed

lemma unvisited_in_range: "n < length vis \<Longrightarrow> unvisited vis n \<longleftrightarrow> vis ! n = 0"
  by (simp add: unvisited_def rd_def)

lemma foldl_push:
  assumes "\<forall>n\<in>set ns. n < 0 \<or> nat n < length vis"
  shows "\<exists>vis' pushed. foldl pushNeighbor (vis, st) ns = (vis', st @ pushed) \<and>
           length vis' = length vis \<and> distinct pushed \<and>
           set pushed \<subseteq> {nat n |n. n \<in> set ns \<and> 0 \<le> n} \<and>
           (\<forall>m\<in>set pushed. m < length vis \<and> vis ! m = 0) \<and>
           (\<forall>i<length vis. vis' ! i = (if i \<in> set pushed then 1 else vis ! i)) \<and>
           (\<forall>n\<in>set ns. 0 \<le> n \<longrightarrow> vis' ! nat n \<noteq> 0)"
  using assms
proof (induction ns arbitrary: vis st)
  case Nil
  show ?case by (intro exI [of _ vis] exI [of _ "[]"]) simp
next
  case (Cons n ns)
  show ?case
  proof (cases "0 \<le> n \<and> unvisited vis (nat n)")
    case True
    then have n0: "0 \<le> n" by simp
    have nr: "nat n < length vis" using Cons.prems n0 by auto
    have nz: "vis ! nat n = 0" using True nr by (simp add: unvisited_in_range)
    let ?v1 = "vis[nat n := 1]"
    have step: "pushNeighbor (vis, st) n = (?v1, st @ [nat n])" using True by simp
    have "\<forall>n\<in>set ns. n < 0 \<or> nat n < length ?v1" using Cons.prems by simp
    from Cons.IH [OF this, of "st @ [nat n]"]
    obtain vis' pushed where ih: "foldl pushNeighbor (?v1, st @ [nat n]) ns = (vis', (st @ [nat n]) @ pushed)"
        "length vis' = length ?v1" "distinct pushed"
        "set pushed \<subseteq> {nat n |n. n \<in> set ns \<and> 0 \<le> n}"
        "\<forall>m\<in>set pushed. m < length ?v1 \<and> ?v1 ! m = 0"
        "\<forall>i<length ?v1. vis' ! i = (if i \<in> set pushed then 1 else ?v1 ! i)"
        "\<forall>n\<in>set ns. 0 \<le> n \<longrightarrow> vis' ! nat n \<noteq> 0"
      by blast
    have notin: "nat n \<notin> set pushed"
    proof
      assume "nat n \<in> set pushed"
      then have "?v1 ! nat n = 0" using ih(5) by blast
      then show False using nr by simp
    qed
    have old: "\<forall>m\<in>set pushed. m < length vis \<and> vis ! m = 0"
    proof
      fix m assume m: "m \<in> set pushed"
      then have a: "m < length vis" "?v1 ! m = 0" using ih(5) by auto
      have "m \<noteq> nat n" using m notin by auto
      then show "m < length vis \<and> vis ! m = 0" using a by simp
    qed
    have val: "\<forall>i<length vis. vis' ! i = (if i \<in> set (nat n # pushed) then 1 else vis ! i)"
    proof (intro allI impI)
      fix i assume i: "i < length vis"
      then have "vis' ! i = (if i \<in> set pushed then 1 else ?v1 ! i)" using ih(6) by simp
      then show "vis' ! i = (if i \<in> set (nat n # pushed) then 1 else vis ! i)"
        using i by (cases "i = nat n") simp_all
    qed
    have nb: "\<forall>k\<in>set (n # ns). 0 \<le> k \<longrightarrow> vis' ! nat k \<noteq> 0"
    proof (intro ballI impI)
      fix k assume k: "k \<in> set (n # ns)" "0 \<le> k"
      show "vis' ! nat k \<noteq> 0"
      proof (cases "k = n")
        case True
        then show ?thesis using val nr by simp
      next
        case False
        then show ?thesis using k ih(7) by simp
      qed
    qed
    have sub: "set (nat n # pushed) \<subseteq> {nat k |k. k \<in> set (n # ns) \<and> 0 \<le> k}"
      using ih(4) n0 by auto
    have res: "foldl pushNeighbor (vis, st) (n # ns) = (vis', st @ (nat n # pushed))"
      using step ih(1) by simp
    show ?thesis
      apply (intro exI [of _ vis'] exI [of _ "nat n # pushed"] conjI)
      subgoal by (rule res)
      subgoal using ih(2) by simp
      subgoal using ih(3) notin by simp
      subgoal by (rule sub)
      subgoal using old nr nz by simp
      subgoal by (rule val)
      subgoal by (rule nb)
      done
  next
    case False
    have step: "pushNeighbor (vis, st) n = (vis, st)" using False by simp
    have "\<forall>n\<in>set ns. n < 0 \<or> nat n < length vis" using Cons.prems by simp
    from Cons.IH [OF this, of st]
    obtain vis' pushed where ih: "foldl pushNeighbor (vis, st) ns = (vis', st @ pushed)"
        "length vis' = length vis" "distinct pushed"
        "set pushed \<subseteq> {nat n |n. n \<in> set ns \<and> 0 \<le> n}"
        "\<forall>m\<in>set pushed. m < length vis \<and> vis ! m = 0"
        "\<forall>i<length vis. vis' ! i = (if i \<in> set pushed then 1 else vis ! i)"
        "\<forall>n\<in>set ns. 0 \<le> n \<longrightarrow> vis' ! nat n \<noteq> 0"
      by blast
    have nb: "\<forall>k\<in>set (n # ns). 0 \<le> k \<longrightarrow> vis' ! nat k \<noteq> 0"
    proof (intro ballI impI)
      fix k assume k: "k \<in> set (n # ns)" "0 \<le> k"
      show "vis' ! nat k \<noteq> 0"
      proof (cases "k = n")
        case True
        then have r: "nat n < length vis" using Cons.prems k by auto
        then have "vis ! nat n \<noteq> 0" using False True k by (simp add: unvisited_in_range)
        then show ?thesis using ih(6) r True by simp
      next
        case False
        then show ?thesis using k ih(7) by simp
      qed
    qed
    have sub: "set pushed \<subseteq> {nat k |k. k \<in> set (n # ns) \<and> 0 \<le> k}"
      using ih(4) by auto
    have res: "foldl pushNeighbor (vis, st) (n # ns) = (vis', st @ pushed)"
      using step ih(1) by simp
    show ?thesis
      apply (intro exI [of _ vis'] exI [of _ pushed] conjI)
      subgoal by (rule res)
      subgoal by (rule ih(2))
      subgoal by (rule ih(3))
      subgoal by (rule sub)
      subgoal by (rule ih(5))
      subgoal by (rule ih(6))
      subgoal by (rule nb)
      done
  qed
qed

lemma divmod_row: "r < (w::nat) \<Longrightarrow> (q * w + r) div w = q \<and> (q * w + r) mod w = r"
  by simp

lemma pos_split: "(pos::nat) = pos div w * w + pos mod w"
  by simp

lemma neighbors_eq:
  assumes "0 < w"
  shows "neighbors w h pos =
           [if 0 < pos mod w then int pos - 1 else - 1,
            if pos mod w + 1 < w then int pos + 1 else - 1,
            if 0 < pos div w then int pos - int w else - 1,
            if pos div w + 1 < h then int pos + int w else - 1]"
proof -
  have "pos - pos mod w = pos div w * w"
    by (metis add_diff_cancel_right' pos_split)
  then have "(pos - pos mod w) div w = pos div w" using assms by simp
  moreover have "int (pos mod w) < int w - 1 \<longleftrightarrow> pos mod w + 1 < w" by auto
  moreover have "int (pos div w) < int h - 1 \<longleftrightarrow> pos div w + 1 < h" by auto
  ultimately show ?thesis by (simp add: neighbors_def Let_def)
qed

lemma row_lt: "0 < (w::nat) \<Longrightarrow> pos < w * h \<Longrightarrow> pos div w < h"
  by (simp add: less_mult_imp_div_less mult.commute)

lemma left_neighbor:
  assumes "0 < (w::nat)" "0 < pos mod w"
  shows "(pos - 1) div w = pos div w" "(pos - 1) mod w + 1 = pos mod w"
proof -
  have "pos - 1 = pos div w * w + (pos mod w - 1)"
    using assms(2) pos_split [of pos w] by linarith
  moreover have "pos mod w - 1 < w" using assms(1) by (simp add: less_imp_diff_less)
  ultimately have "(pos - 1) div w = pos div w \<and> (pos - 1) mod w = pos mod w - 1"
    using divmod_row [of "pos mod w - 1" w "pos div w"] by simp
  then show "(pos - 1) div w = pos div w" "(pos - 1) mod w + 1 = pos mod w"
    using assms(2) by simp_all
qed

lemma right_neighbor:
  assumes "pos mod w + 1 < (w::nat)"
  shows "(pos + 1) div w = pos div w" "(pos + 1) mod w = pos mod w + 1"
proof -
  have "pos + 1 = pos div w * w + (pos mod w + 1)"
    using pos_split [of pos w] by linarith
  then have "(pos + 1) div w = pos div w \<and> (pos + 1) mod w = pos mod w + 1"
    using divmod_row [OF assms, of "pos div w"] by simp
  then show "(pos + 1) div w = pos div w" "(pos + 1) mod w = pos mod w + 1" by simp_all
qed

lemma up_neighbor:
  assumes "0 < (w::nat)" "0 < pos div w"
  shows "(pos - w) div w + 1 = pos div w" "(pos - w) mod w = pos mod w" "w \<le> pos"
proof -
  show le: "w \<le> pos"
  proof (rule ccontr)
    assume "\<not> w \<le> pos"
    then have "pos div w = 0" by simp
    then show False using assms(2) by simp
  qed
  show "(pos - w) div w + 1 = pos div w" using le assms by (simp add: le_div_geq)
  show "(pos - w) mod w = pos mod w" using le by (simp add: le_mod_geq)
qed

lemma down_neighbor:
  assumes "0 < (w::nat)"
  shows "(pos + w) div w = pos div w + 1" "(pos + w) mod w = pos mod w"
  using assms by simp_all

lemma grid_lt:
  assumes "0 < (w::nat)" "y < h" "x < w"
  shows "y * w + x < w * h"
proof -
  have "y * w + x < y * w + w" using assms(3) by simp
  also have "\<dots> = Suc y * w" by simp
  also have "\<dots> \<le> h * w" using assms(2) by (intro mult_le_mono1) simp
  finally show ?thesis by (simp add: mult.commute)
qed

lemma neighbors_sound:
  assumes "0 < w" "pos < w * h" "n \<in> set (neighbors w h pos)" "0 \<le> n"
  shows "adjacent4 w h pos (nat n)"
proof -
  have py: "pos div w < h" using row_lt [OF assms(1,2)] .
  have px: "pos mod w < w" using assms(1) by simp
  from assms(3) have
    "n = (if 0 < pos mod w then int pos - 1 else - 1) \<or>
     n = (if pos mod w + 1 < w then int pos + 1 else - 1) \<or>
     n = (if 0 < pos div w then int pos - int w else - 1) \<or>
     n = (if pos div w + 1 < h then int pos + int w else - 1)"
    by (simp add: neighbors_eq [OF assms(1)])
  then consider
      (l) "0 < pos mod w" "n = int pos - 1"
    | (r) "pos mod w + 1 < w" "n = int pos + 1"
    | (u) "0 < pos div w" "n = int pos - int w"
    | (d) "pos div w + 1 < h" "n = int pos + int w"
    using assms(4) by (auto split: if_splits)
  then show ?thesis
  proof cases
    case l
    then have p: "0 < pos" by (cases "pos = 0") simp_all
    then have nn: "nat n = pos - 1" using l(2) by simp
    have "pos - 1 < w * h" using assms(2) by simp
    then show ?thesis
      using left_neighbor [OF assms(1) l(1)] assms(2) by (simp add: adjacent4_def nn)
  next
    case r
    have nn: "nat n = pos + 1" using r(2) by simp
    have "pos + 1 = (pos + 1) div w * w + (pos + 1) mod w" by simp
    then have "pos + 1 = pos div w * w + (pos mod w + 1)"
      using right_neighbor [OF r(1)] by simp
    then have "pos + 1 < w * h" using grid_lt [OF assms(1) py r(1)] by simp
    then show ?thesis
      using right_neighbor [OF r(1)] assms(2) by (simp add: adjacent4_def nn)
  next
    case u
    note f = up_neighbor [OF assms(1) u(1)]
    have nn: "nat n = pos - w" using u(2) f(3) by simp
    have "pos - w < w * h" using assms(2) by simp
    then show ?thesis
      using f assms(2) by (simp add: adjacent4_def nn)
  next
    case d
    have nn: "nat n = pos + w" using d(2) by (simp add: nat_add_distrib)
    have "pos + w = (pos div w + 1) * w + pos mod w"
      using pos_split [of pos w] by (simp add: add_mult_distrib)
    then have "pos + w < w * h" using grid_lt [OF assms(1) d(1) px] by simp
    then show ?thesis
      using down_neighbor [OF assms(1), of pos] assms(2) by (simp add: adjacent4_def nn)
  qed
qed

lemma neighbors_complete:
  assumes "0 < w" "adjacent4 w h pos q"
  shows "int q \<in> set (neighbors w h pos)"
proof -
  have q: "q < w * h" and p: "pos < w * h" using assms(2) by (simp_all add: adjacent4_def)
  have qs: "q = q div w * w + q mod w" by simp
  have ps: "pos = pos div w * w + pos mod w" by simp
  from assms(2) consider
      (r) "q div w = pos div w" "q mod w = pos mod w + 1"
    | (l) "q div w = pos div w" "q mod w + 1 = pos mod w"
    | (d) "q mod w = pos mod w" "q div w = pos div w + 1"
    | (u) "q mod w = pos mod w" "q div w + 1 = pos div w"
    by (auto simp: adjacent4_def)
  then show ?thesis
  proof cases
    case r
    have "q = pos div w * w + (pos mod w + 1)" using qs r by simp
    then have e: "q = pos + 1" using ps by linarith
    have "pos mod w + 1 < w" using r(2) assms(1) by (metis mod_less_divisor)
    then show ?thesis using e by (simp add: neighbors_eq [OF assms(1)])
  next
    case l
    have "q + 1 = pos div w * w + pos mod w" using qs l by (metis add.assoc)
    then have e: "q + 1 = pos" using ps by simp
    have "0 < pos mod w" using l(2) by simp
    moreover have "int q = int pos - 1" using e by simp
    ultimately show ?thesis by (simp add: neighbors_eq [OF assms(1)])
  next
    case d
    have "q = (pos div w + 1) * w + pos mod w" using qs d by simp
    then have e: "q = pos + w" using ps by (simp add: add_mult_distrib)
    have "q div w < h" using row_lt [OF assms(1) q] .
    then have "pos div w + 1 < h" using d(2) by simp
    moreover have "int q = int pos + int w" using e by simp
    ultimately show ?thesis by (simp add: neighbors_eq [OF assms(1)])
  next
    case u
    have a: "q + w = (q div w + 1) * w + q mod w"
      using pos_split [of q w] by (simp add: add_mult_distrib)
    have "pos = pos div w * w + pos mod w" by simp
    also have "\<dots> = (q div w + 1) * w + q mod w"
      by (simp only: u(1) [symmetric] u(2) [symmetric])
    finally have b: "pos = (q div w + 1) * w + q mod w" .
    have e: "q + w = pos" by (simp only: a b)
    have "0 < pos div w" using u(2) by simp
    moreover have "int q = int pos - int w" using e by simp
    ultimately show ?thesis by (simp add: neighbors_eq [OF assms(1)])
  qed
qed

lemma foldl_push_potential:
  assumes "\<forall>n\<in>set ns. n < 0 \<or> nat n < length vis"
    and "foldl pushNeighbor (vis, st) ns = (vis', st')"
  shows "zeros vis' + length st' = zeros vis + length st"
  using assms
proof (induction ns arbitrary: vis st)
  case Nil
  then show ?case by simp
next
  case (Cons n ns)
  show ?case
  proof (cases "0 \<le> n \<and> unvisited vis (nat n)")
    case True
    have nr: "nat n < length vis" using Cons.prems(1) True by auto
    have nz: "vis ! nat n = 0" using True nr by (simp add: unvisited_in_range)
    let ?v1 = "vis[nat n := 1]"
    have a: "\<forall>n\<in>set ns. n < 0 \<or> nat n < length ?v1" using Cons.prems(1) by simp
    have b: "foldl pushNeighbor (?v1, st @ [nat n]) ns = (vis', st')"
      using Cons.prems(2) True by simp
    have "zeros vis' + length st' = zeros ?v1 + length (st @ [nat n])"
      using Cons.IH [OF a b] .
    moreover have "Suc (zeros ?v1) = zeros vis"
      using zeros_update_zero [OF nr nz, of 1] by simp
    ultimately show ?thesis by simp
  next
    case False
    have a: "\<forall>n\<in>set ns. n < 0 \<or> nat n < length vis" using Cons.prems(1) by simp
    have b: "foldl pushNeighbor (vis, st) ns = (vis', st')"
      using Cons.prems(2) False by simp
    show ?thesis using Cons.IH [OF a b] .
  qed
qed

lemma neighbors_in_range:
  assumes "0 < w" "pos < w * h"
  shows "\<forall>n\<in>set (neighbors w h pos). n < 0 \<or> nat n < w * h"
proof
  fix n assume n: "n \<in> set (neighbors w h pos)"
  show "n < 0 \<or> nat n < w * h"
  proof (cases "0 \<le> n")
    case True
    then have "adjacent4 w h pos (nat n)" using neighbors_sound [OF assms n] by simp
    then show ?thesis by (simp add: adjacent4_def)
  next
    case False
    then show ?thesis by simp
  qed
qed

lemma fillStep_shape:
  assumes "0 < w" "length vis = w * h" "st \<noteq> []" "last st < w * h"
  shows "\<exists>vis' pushed. fillStep w h data seed (vis, st) = (vis', butlast st @ pushed) \<and>
           length vis' = length vis \<and> distinct pushed \<and>
           (\<forall>m\<in>set pushed. adjacent4 w h (last st) m \<and> vis ! m = 0 \<and> vis' ! m = 1) \<and>
           (\<forall>i<w * h. i \<notin> set pushed \<longrightarrow>
              vis' ! i = (if i = last st \<and> \<not> exceedsTolerance data seed (last st)
                          then 2 else vis ! i)) \<and>
           (exceedsTolerance data seed (last st) \<longrightarrow> pushed = []) \<and>
           (\<not> exceedsTolerance data seed (last st) \<longrightarrow>
              (\<forall>q. adjacent4 w h (last st) q \<longrightarrow> vis' ! q \<noteq> 0)) \<and>
           zeros vis' + length (butlast st @ pushed) < zeros vis + length st"
proof (cases "exceedsTolerance data seed (last st)")
  case True
  have "fillStep w h data seed (vis, st) = (vis, butlast st @ [])"
    using True by (simp add: Let_def)
  moreover have "zeros vis + length (butlast st @ []) < zeros vis + length st"
    using assms(3) by simp
  ultimately show ?thesis
    using True by (intro exI [of _ vis] exI [of _ "[]"]) simp
next
  case False
  let ?pos = "last st"
  let ?v1 = "vis[?pos := 2]"
  have l1: "length ?v1 = w * h" using assms(2) by simp
  have rng: "\<forall>n\<in>set (neighbors w h ?pos). n < 0 \<or> nat n < length ?v1"
    using neighbors_in_range [OF assms(1,4)] l1 by simp
  from foldl_push [OF rng, of "butlast st"]
  obtain vis' pushed where f:
      "foldl pushNeighbor (?v1, butlast st) (neighbors w h ?pos) = (vis', butlast st @ pushed)"
      "length vis' = length ?v1" "distinct pushed"
      "set pushed \<subseteq> {nat n |n. n \<in> set (neighbors w h ?pos) \<and> 0 \<le> n}"
      "\<forall>m\<in>set pushed. m < length ?v1 \<and> ?v1 ! m = 0"
      "\<forall>i<length ?v1. vis' ! i = (if i \<in> set pushed then 1 else ?v1 ! i)"
      "\<forall>n\<in>set (neighbors w h ?pos). 0 \<le> n \<longrightarrow> vis' ! nat n \<noteq> 0"
    by blast
  have step: "fillStep w h data seed (vis, st) = (vis', butlast st @ pushed)"
    using False f(1) by (simp add: Let_def)
  have pushed: "\<forall>m\<in>set pushed. adjacent4 w h ?pos m \<and> vis ! m = 0 \<and> vis' ! m = 1"
  proof
    fix m assume m: "m \<in> set pushed"
    then obtain n where n: "m = nat n" "n \<in> set (neighbors w h ?pos)" "0 \<le> n"
      using f(4) by blast
    have adj: "adjacent4 w h ?pos m" using neighbors_sound [OF assms(1,4) n(2,3)] n(1) by simp
    have ml: "m < length ?v1" and mz: "?v1 ! m = 0" using f(5) m by auto
    have "m \<noteq> ?pos"
    proof
      assume "m = ?pos"
      then have "?v1 ! m = 2" using ml by simp
      then show False using mz by simp
    qed
    then have "vis ! m = 0" using mz by simp
    moreover have "vis' ! m = 1" using f(6) ml m by simp
    ultimately show "adjacent4 w h ?pos m \<and> vis ! m = 0 \<and> vis' ! m = 1" using adj by simp
  qed
  have other: "\<forall>i<w * h. i \<notin> set pushed \<longrightarrow>
              vis' ! i = (if i = ?pos \<and> \<not> exceedsTolerance data seed ?pos then 2 else vis ! i)"
  proof (intro allI impI)
    fix i assume i: "i < w * h" "i \<notin> set pushed"
    then have "vis' ! i = ?v1 ! i" using f(6) l1 by simp
    then show "vis' ! i = (if i = ?pos \<and> \<not> exceedsTolerance data seed ?pos then 2 else vis ! i)"
      using False i(1) assms(2) by (cases "i = ?pos") simp_all
  qed
  have nb: "\<forall>q. adjacent4 w h ?pos q \<longrightarrow> vis' ! q \<noteq> 0"
  proof (intro allI impI)
    fix q assume "adjacent4 w h ?pos q"
    then have mem: "int q \<in> set (neighbors w h ?pos)" by (rule neighbors_complete [OF assms(1)])
    have "0 \<le> int q" by simp
    with f(7) mem have "vis' ! nat (int q) \<noteq> 0" by blast
    then show "vis' ! q \<noteq> 0" by simp
  qed
  have "zeros vis' + length (butlast st @ pushed) = zeros ?v1 + length (butlast st)"
    using foldl_push_potential [OF rng f(1)] .
  moreover have "zeros ?v1 \<le> zeros vis" by (rule zeros_update_le) simp
  moreover have "length (butlast st) < length st" using assms(3) by simp
  ultimately have pot: "zeros vis' + length (butlast st @ pushed) < zeros vis + length st"
    by linarith
  show ?thesis
    apply (intro exI [of _ vis'] exI [of _ pushed] conjI)
    subgoal by (rule step)
    subgoal using f(2) by simp
    subgoal by (rule f(3))
    subgoal by (rule pushed)
    subgoal by (rule other)
    subgoal using False by simp
    subgoal using nb by simp
    subgoal by (rule pot)
    done
qed

lemma fillLoop_terminates:
  assumes "0 < w"
  shows "length vis = w * h \<Longrightarrow> \<forall>n\<in>set st. n < w * h \<Longrightarrow> zeros vis + length st \<le> fuel \<Longrightarrow>
         \<exists>v. fillLoop fuel w h data seed (vis, st) = Some v \<and> length v = w * h"
proof (induction fuel arbitrary: vis st)
  case 0
  then show ?case by simp
next
  case (Suc fuel)
  show ?case
  proof (cases "st = []")
    case True
    then show ?thesis using Suc.prems(1) by simp
  next
    case False
    have "last st < w * h" using Suc.prems(2) False by simp
    from fillStep_shape [OF assms Suc.prems(1) False this, of data seed]
    obtain vis' pushed where s: "fillStep w h data seed (vis, st) = (vis', butlast st @ pushed)"
        "length vis' = length vis"
        "\<forall>m\<in>set pushed. adjacent4 w h (last st) m \<and> vis ! m = 0 \<and> vis' ! m = 1"
        "zeros vis' + length (butlast st @ pushed) < zeros vis + length st"
      by blast
    have l: "length vis' = w * h" using s(2) Suc.prems(1) by simp
    have r: "\<forall>n\<in>set (butlast st @ pushed). n < w * h"
    proof
      fix n assume "n \<in> set (butlast st @ pushed)"
      then consider "n \<in> set (butlast st)" | "n \<in> set pushed" by auto
      then show "n < w * h"
      proof cases
        case 1
        then show ?thesis using Suc.prems(2) by (auto dest: in_set_butlastD)
      next
        case 2
        then show ?thesis using s(3) by (auto simp: adjacent4_def)
      qed
    qed
    have p: "zeros vis' + length (butlast st @ pushed) \<le> fuel"
      using s(4) Suc.prems(3) by linarith
    from Suc.IH [OF l r p] show ?thesis using False s(1) by simp
  qed
qed

lemma fillLoop_more_fuel:
  "fillLoop fuel w h data seed (vis, st) = Some v \<Longrightarrow>
   fillLoop (fuel + k) w h data seed (vis, st) = Some v"
proof (induction fuel arbitrary: vis st)
  case 0
  then have "st = []" by (simp split: if_splits)
  then show ?case using 0 by (cases k) simp_all
next
  case (Suc fuel)
  show ?case
  proof (cases "st = []")
    case True
    then show ?thesis using Suc.prems by simp
  next
    case False
    obtain vis' st' where s: "fillStep w h data seed (vis, st) = (vis', st')"
      by (cases "fillStep w h data seed (vis, st)")
    have "fillLoop fuel w h data seed (vis', st') = Some v"
      using Suc.prems False s by simp
    from Suc.IH [OF this] show ?thesis using False s by simp
  qed
qed

lemma fillLoop_invariant:
  assumes step: "\<And>vis st. P vis st \<Longrightarrow> st \<noteq> [] \<Longrightarrow>
            \<exists>vis' st'. fillStep w h data seed (vis, st) = (vis', st') \<and> P vis' st'"
  shows "P vis st \<Longrightarrow> fillLoop fuel w h data seed (vis, st) = Some v \<Longrightarrow> P v []"
proof (induction fuel arbitrary: vis st)
  case 0
  then show ?case by (simp split: if_splits)
next
  case (Suc fuel)
  show ?case
  proof (cases "st = []")
    case True
    then show ?thesis using Suc.prems by simp
  next
    case False
    from step [OF Suc.prems(1) False]
    obtain vis' st' where s: "fillStep w h data seed (vis, st) = (vis', st')" "P vis' st'"
      by blast
    have "fillLoop fuel w h data seed (vis', st') = Some v"
      using Suc.prems(2) False s(1) by simp
    from Suc.IH [OF s(2) this] show ?thesis .
  qed
qed

lemma in_set_not_last: "i \<in> set st \<Longrightarrow> i \<noteq> last st \<Longrightarrow> i \<in> set (butlast st)"
proof -
  assume a: "i \<in> set st" "i \<noteq> last st"
  then have "st \<noteq> []" by auto
  then have "st = butlast st @ [last st]" by simp
  then have "set st = set (butlast st) \<union> {last st}" by (metis set_append list.set(1,2) Un_insert_right sup_bot.right_neutral)
  then show ?thesis using a by auto
qed

lemma fillInv_step:
  assumes w: "0 < w" and inv: "fillInv w h data seed p0 vis st" and ne: "st \<noteq> []"
  shows "\<exists>vis' st'. fillStep w h data seed (vis, st) = (vis', st') \<and>
           fillInv w h data seed p0 vis' st'"
proof -
  let ?pos = "last st"
  let ?ex = "exceedsTolerance data seed"
  have len: "length vis = w * h" and rng: "\<forall>n\<in>set st. n < w * h" and p0: "p0 < w * h"
    and p0nz: "vis ! p0 \<noteq> 0"
    and i2: "\<forall>i<w * h. vis ! i = 2 \<longrightarrow> \<not> ?ex i"
    and i1: "\<forall>i<w * h. vis ! i = 1 \<longrightarrow> i \<in> set st \<or> ?ex i"
    and iv: "\<forall>i<w * h. vis ! i = 0 \<or> vis ! i = 1 \<or> vis ! i = 2"
    and ia: "\<forall>i<w * h. vis ! i = 2 \<longrightarrow> (\<forall>q. adjacent4 w h i q \<longrightarrow> vis ! q \<noteq> 0)"
    using inv by (simp_all add: fillInv_def)
  have pos: "?pos < w * h" using rng ne by simp
  from fillStep_shape [OF w len ne pos, of data seed]
  obtain vis' pushed where s: "fillStep w h data seed (vis, st) = (vis', butlast st @ pushed)"
      "length vis' = length vis"
      "\<forall>m\<in>set pushed. adjacent4 w h ?pos m \<and> vis ! m = 0 \<and> vis' ! m = 1"
      "\<forall>i<w * h. i \<notin> set pushed \<longrightarrow> vis' ! i = (if i = ?pos \<and> \<not> ?ex ?pos then 2 else vis ! i)"
      "\<not> ?ex ?pos \<longrightarrow> (\<forall>q. adjacent4 w h ?pos q \<longrightarrow> vis' ! q \<noteq> 0)"
    by blast
  have one: "vis' ! i = 1" if "i \<in> set pushed" for i using s(3) that by blast
  have rest: "vis' ! i = (if i = ?pos \<and> \<not> ?ex ?pos then 2 else vis ! i)"
    if "i < w * h" "i \<notin> set pushed" for i using s(4) that by blast
  have mono: "vis' ! i \<noteq> 0" if "i < w * h" "vis ! i \<noteq> 0" for i
  proof (cases "i \<in> set pushed")
    case True
    then show ?thesis using one by simp
  next
    case False
    then show ?thesis using rest [OF that(1) False] that(2) by (simp split: if_splits)
  qed
  have c1: "length vis' = w * h" using s(2) len by simp
  have c2: "\<forall>n\<in>set (butlast st @ pushed). n < w * h"
  proof
    fix n assume "n \<in> set (butlast st @ pushed)"
    then consider "n \<in> set (butlast st)" | "n \<in> set pushed" by auto
    then show "n < w * h"
    proof cases
      case 1
      then show ?thesis using rng by (auto dest: in_set_butlastD)
    next
      case 2
      then show ?thesis using s(3) by (auto simp: adjacent4_def)
    qed
  qed
  have c4: "vis' ! p0 \<noteq> 0" using mono [OF p0 p0nz] .
  have c5: "\<forall>i<w * h. vis' ! i = 2 \<longrightarrow> \<not> ?ex i"
  proof (intro allI impI)
    fix i assume i: "i < w * h" "vis' ! i = 2"
    have np: "i \<notin> set pushed" using one i(2) by auto
    show "\<not> ?ex i"
    proof (cases "i = ?pos \<and> \<not> ?ex ?pos")
      case True
      then show ?thesis by simp
    next
      case False
      have "vis' ! i = vis ! i" using rest [OF i(1) np] by (simp only: False if_False)
      then have "vis ! i = 2" using i(2) by simp
      then show ?thesis using i2 i(1) by blast
    qed
  qed
  have c6: "\<forall>i<w * h. vis' ! i = 1 \<longrightarrow> i \<in> set (butlast st @ pushed) \<or> ?ex i"
  proof (intro allI impI)
    fix i assume i: "i < w * h" "vis' ! i = 1"
    show "i \<in> set (butlast st @ pushed) \<or> ?ex i"
    proof (cases "i \<in> set pushed")
      case True
      then show ?thesis by simp
    next
      case np: False
      show ?thesis
      proof (cases "i = ?pos \<and> \<not> ?ex ?pos")
        case True
        then have "vis' ! i = 2" using rest [OF i(1) np] by simp
        then show ?thesis using i(2) by simp
      next
        case False
        have "vis' ! i = vis ! i" using rest [OF i(1) np] by (simp only: False if_False)
        then have "vis ! i = 1" using i(2) by simp
        then have "i \<in> set st \<or> ?ex i" using i1 i(1) by blast
        then show ?thesis
        proof
          assume m: "i \<in> set st"
          show ?thesis
          proof (cases "i = ?pos")
            case True
            then show ?thesis using False by simp
          next
            case False
            then show ?thesis using in_set_not_last [OF m] by simp
          qed
        next
          assume "?ex i"
          then show ?thesis by simp
        qed
      qed
    qed
  qed
  have c7: "\<forall>i<w * h. vis' ! i = 0 \<or> vis' ! i = 1 \<or> vis' ! i = 2"
  proof (intro allI impI)
    fix i assume i: "i < w * h"
    show "vis' ! i = 0 \<or> vis' ! i = 1 \<or> vis' ! i = 2"
    proof (cases "i \<in> set pushed")
      case True
      then show ?thesis using one by simp
    next
      case False
      then show ?thesis using rest [OF i False] iv i by (auto split: if_splits)
    qed
  qed
  have c8: "\<forall>i<w * h. vis' ! i = 2 \<longrightarrow> (\<forall>q. adjacent4 w h i q \<longrightarrow> vis' ! q \<noteq> 0)"
  proof (intro allI impI)
    fix i q assume i: "i < w * h" "vis' ! i = 2" and adj: "adjacent4 w h i q"
    have np: "i \<notin> set pushed" using one i(2) by auto
    have q: "q < w * h" using adj by (simp add: adjacent4_def)
    show "vis' ! q \<noteq> 0"
    proof (cases "i = ?pos \<and> \<not> ?ex ?pos")
      case True
      then show ?thesis using s(5) adj by blast
    next
      case False
      have "vis' ! i = vis ! i" using rest [OF i(1) np] by (simp only: False if_False)
      then have "vis ! i = 2" using i(2) by simp
      then have "vis ! q \<noteq> 0" using ia i(1) adj by blast
      then show ?thesis using mono [OF q] by simp
    qed
  qed
  have "fillInv w h data seed p0 vis' (butlast st @ pushed)"
    unfolding fillInv_def using c1 c2 p0 c4 c5 c6 c7 c8 by blast
  then show ?thesis using s(1) by blast
qed

lemma floodInit_inv:
  assumes "x0 < w" "y0 < h"
  shows "fillInv w h data seed (y0 * w + x0) (fst (floodInit w h x0 y0)) (snd (floodInit w h x0 y0))"
proof -
  have w: "0 < w" using assms(1) by simp
  let ?p = "y0 * w + x0"
  have p: "?p < w * h" using grid_lt [OF w assms(2,1)] .
  have v: "(replicate (w * h) (0::byte))[?p := 1] ! i = (if i = ?p then 1 else 0)"
    if "i < w * h" for i using that p by (simp add: nth_list_update)
  have s: "snd (floodInit w h x0 y0) = [?p]" by (simp add: floodInit_def add.commute)
  have f: "fst (floodInit w h x0 y0) = (replicate (w * h) 0)[?p := 1]" by (simp add: floodInit_def)
  show ?thesis
    unfolding fillInv_def s f using p v by simp
qed

lemma zeros_replicate: "zeros (replicate n 0) = n"
  by (simp add: zeros_def)

lemma floodInit_potential:
  assumes "x0 < w" "y0 < h"
  shows "zeros (fst (floodInit w h x0 y0)) + length (snd (floodInit w h x0 y0)) = w * h"
proof -
  have w: "0 < w" using assms(1) by simp
  let ?p = "y0 * w + x0"
  have p: "?p < w * h" using grid_lt [OF w assms(2,1)] .
  have "Suc (zeros ((replicate (w * h) (0::byte))[?p := 1])) = zeros (replicate (w * h) (0::byte))"
    using p by (intro zeros_update_zero) simp_all
  then show ?thesis by (simp add: floodInit_def zeros_replicate)
qed

lemma floodRegion_terminates:
  assumes "x0 < w" "y0 < h"
  shows "\<exists>v. floodRegion (w * h) w h data x0 y0 = Some v \<and> length v = w * h \<and>
             (\<forall>k. floodRegion (w * h + k) w h data x0 y0 = Some v)"
proof -
  have w: "0 < w" using assms(1) by simp
  let ?vis = "fst (floodInit w h x0 y0)" and ?st = "snd (floodInit w h x0 y0)"
  let ?seed = "seedOf data w x0 y0"
  have inv: "fillInv w h data ?seed (y0 * w + x0) ?vis ?st" using floodInit_inv [OF assms] .
  have l: "length ?vis = w * h" and r: "\<forall>n\<in>set ?st. n < w * h"
    using inv by (simp_all add: fillInv_def)
  have p: "zeros ?vis + length ?st \<le> w * h" using floodInit_potential [OF assms] by simp
  from fillLoop_terminates [OF w l r p, of data ?seed]
  obtain v where v: "fillLoop (w * h) w h data ?seed (?vis, ?st) = Some v" "length v = w * h"
    by blast
  have "fillLoop (w * h + k) w h data ?seed (?vis, ?st) = Some v" for k
    using fillLoop_more_fuel [OF v(1)] .
  then show ?thesis using v by (simp add: floodRegion_def)
qed

text \<open>
  Claim C9: the flood fill works on an explicit stack.  One iteration pops the top of
  the stack and pushes only pixels that are 4-connected neighbours of the popped pixel
  inside the grid, each of them unvisited before and marked visited as it is pushed, no
  pixel twice; a mark, once set, is never reset, so no pixel is pushed a second time.
  From a seed inside the surface the loop ends after at most \<open>w * h\<close> pops, and more
  iterations allowed change nothing.
\<close>

theorem flood_fill_visits_once_and_terminates:
  assumes "x0 < w" "y0 < h"
  shows "(\<forall>vis st. length vis = w * h \<and> st \<noteq> [] \<and> last st < w * h \<longrightarrow>
            (\<exists>vis' pushed.
               fillStep w h data seed (vis, st) = (vis', butlast st @ pushed) \<and>
               distinct pushed \<and>
               (\<forall>m\<in>set pushed. adjacent4 w h (last st) m \<and> vis ! m = 0 \<and> vis' ! m = 1) \<and>
               (\<forall>i<w * h. vis ! i \<noteq> 0 \<longrightarrow> vis' ! i \<noteq> 0))) \<and>
         (\<exists>v. floodRegion (w * h) w h data x0 y0 = Some v \<and> length v = w * h \<and>
              (\<forall>k. floodRegion (w * h + k) w h data x0 y0 = Some v))"
proof (intro conjI allI impI)
  fix vis :: "byte list" and st :: "nat list"
  assume a: "length vis = w * h \<and> st \<noteq> [] \<and> last st < w * h"
  have w: "0 < w" using assms(1) by simp
  from a have l: "length vis = w * h" and ne: "st \<noteq> []" and pos: "last st < w * h" by simp_all
  from fillStep_shape [OF w l ne pos, of data seed]
  obtain vis' pushed where s: "fillStep w h data seed (vis, st) = (vis', butlast st @ pushed)"
      "distinct pushed"
      "\<forall>m\<in>set pushed. adjacent4 w h (last st) m \<and> vis ! m = 0 \<and> vis' ! m = 1"
      "\<forall>i<w * h. i \<notin> set pushed \<longrightarrow>
         vis' ! i = (if i = last st \<and> \<not> exceedsTolerance data seed (last st) then 2 else vis ! i)"
    by blast
  have mono: "\<forall>i<w * h. vis ! i \<noteq> 0 \<longrightarrow> vis' ! i \<noteq> 0"
  proof (intro allI impI)
    fix i assume i: "i < w * h" "vis ! i \<noteq> 0"
    show "vis' ! i \<noteq> 0"
    proof (cases "i \<in> set pushed")
      case True
      then have "vis' ! i = 1" using s(3) by blast
      then show ?thesis by simp
    next
      case False
      then have "vis' ! i = (if i = last st \<and> \<not> exceedsTolerance data seed (last st)
                             then 2 else vis ! i)"
        using s(4) i(1) by blast
      then show ?thesis using i(2) by (simp split: if_splits)
    qed
  qed
  from s(1,2,3) mono
  show "\<exists>vis' pushed.
               fillStep w h data seed (vis, st) = (vis', butlast st @ pushed) \<and>
               distinct pushed \<and>
               (\<forall>m\<in>set pushed. adjacent4 w h (last st) m \<and> vis ! m = 0 \<and> vis' ! m = 1) \<and>
               (\<forall>i<w * h. vis ! i \<noteq> 0 \<longrightarrow> vis' ! i \<noteq> 0)"
    by blast
next
  show "\<exists>v. floodRegion (w * h) w h data x0 y0 = Some v \<and> length v = w * h \<and>
              (\<forall>k. floodRegion (w * h + k) w h data x0 y0 = Some v)"
    using floodRegion_terminates [OF assms] .
qed

lemma exceeds_iff:
  assumes "length data = 4 * (w * h)" "x0 < w" "y0 < h" "q < w * h"
  shows "exceedsTolerance data (seedOf data w x0 y0) q \<longleftrightarrow> diffSum data (y0 * w + x0) q > 3 * 32"
proof -
  have w: "0 < w" using assms(2) by simp
  let ?p = "y0 * w + x0"
  have p: "?p < w * h" using grid_lt [OF w assms(3,2)] .
  have rp: "rd data (?p * 4) = Some (data ! (?p * 4))"
      "rd data (?p * 4 + 1) = Some (data ! (?p * 4 + 1))"
      "rd data (?p * 4 + 2) = Some (data ! (?p * 4 + 2))"
    using p assms(1) by (simp_all add: rd_def)
  have rq: "rd data (q * 4) = Some (data ! (q * 4))"
      "rd data (q * 4 + 1) = Some (data ! (q * 4 + 1))"
      "rd data (q * 4 + 2) = Some (data ! (q * 4 + 2))"
    using assms(4,1) by (simp_all add: rd_def)
  show ?thesis
    by (simp only: seedOf_def Let_def exceedsTolerance.simps rp rq channelDiff_def
        option.case diffSum_def tolerance_def) simp
qed

lemma diffSum_self: "diffSum data p p = 0"
  by (simp add: diffSum_def)

lemma floodRegion_final:
  assumes "x0 < w" "y0 < h"
  shows "\<exists>v. floodRegion (w * h) w h data x0 y0 = Some v \<and>
             fillInv w h data (seedOf data w x0 y0) (y0 * w + x0) v []"
proof -
  have w: "0 < w" using assms(1) by simp
  let ?seed = "seedOf data w x0 y0" and ?p = "y0 * w + x0"
  let ?vis = "fst (floodInit w h x0 y0)" and ?st = "snd (floodInit w h x0 y0)"
  from floodRegion_terminates [OF assms, of data]
  obtain v where v: "floodRegion (w * h) w h data x0 y0 = Some v" by blast
  then have run: "fillLoop (w * h) w h data ?seed (?vis, ?st) = Some v"
    by (simp add: floodRegion_def)
  have "fillInv w h data ?seed ?p v []"
    using fillLoop_invariant [of "fillInv w h data ?seed ?p" w h data ?seed ?vis ?st "w * h" v,
        OF fillInv_step [OF w] floodInit_inv [OF assms] run] .
  then show ?thesis using v by blast
qed

text \<open>
  Claim C4: the tolerance test.  The fill ends with the seed in the region, and every
  pixel the traversal has examined, in particular every 4-connected neighbour of a pixel
  of the region, is in the region if and only if the sum of the absolute differences of
  its red, green and blue channels to the seed is at most \<open>3 * 32 = 96\<close>: included at
  96, excluded at 97.
\<close>

theorem flood_fill_tolerance_boundary:
  assumes "x0 < w" "y0 < h" "length data = 4 * (w * h)"
  shows "\<exists>v. floodRegion (w * h) w h data x0 y0 = Some v \<and> length v = w * h \<and>
           v ! (y0 * w + x0) = 2 \<and>
           (\<forall>q<w * h. v ! q \<noteq> 0 \<longrightarrow> (v ! q = 2 \<longleftrightarrow> diffSum data (y0 * w + x0) q \<le> 3 * 32)) \<and>
           (\<forall>p q. v ! p = 2 \<and> adjacent4 w h p q \<longrightarrow>
                (v ! q = 2 \<longleftrightarrow> diffSum data (y0 * w + x0) q \<le> 3 * 32))"
proof -
  let ?seed = "seedOf data w x0 y0" and ?p = "y0 * w + x0"
  let ?ex = "exceedsTolerance data ?seed"
  from floodRegion_final [OF assms(1,2), of data]
  obtain v where v: "floodRegion (w * h) w h data x0 y0 = Some v"
      and inv: "fillInv w h data ?seed ?p v []" by blast
  have len: "length v = w * h" and p0: "?p < w * h" and p0nz: "v ! ?p \<noteq> 0"
    and i2: "\<forall>i<w * h. v ! i = 2 \<longrightarrow> \<not> ?ex i"
    and i1: "\<forall>i<w * h. v ! i = 1 \<longrightarrow> ?ex i"
    and iv: "\<forall>i<w * h. v ! i = 0 \<or> v ! i = 1 \<or> v ! i = 2"
    and ia: "\<forall>i<w * h. v ! i = 2 \<longrightarrow> (\<forall>q. adjacent4 w h i q \<longrightarrow> v ! q \<noteq> 0)"
    using inv by (simp_all add: fillInv_def)
  have ex: "?ex q \<longleftrightarrow> diffSum data ?p q > 3 * 32" if "q < w * h" for q
    using exceeds_iff [OF assms(3,1,2) that] .
  have cand: "v ! q = 2 \<longleftrightarrow> diffSum data ?p q \<le> 3 * 32" if q: "q < w * h" "v ! q \<noteq> 0" for q
  proof
    assume "v ! q = 2"
    then have "\<not> ?ex q" using i2 q(1) by blast
    then show "diffSum data ?p q \<le> 3 * 32" using ex [OF q(1)] by simp
  next
    assume "diffSum data ?p q \<le> 3 * 32"
    then have "\<not> ?ex q" using ex [OF q(1)] by simp
    then have "v ! q \<noteq> 1" using i1 q(1) by blast
    then show "v ! q = 2" using iv q by blast
  qed
  have seed: "v ! ?p = 2" using cand [OF p0 p0nz] by (simp add: diffSum_self)
  have nb: "v ! q = 2 \<longleftrightarrow> diffSum data ?p q \<le> 3 * 32" if "v ! p = 2 \<and> adjacent4 w h p q" for p q
  proof -
    have p: "p < w * h" and q: "q < w * h" using that by (simp_all add: adjacent4_def)
    have "v ! q \<noteq> 0" using ia p that by blast
    then show ?thesis using cand [OF q] by simp
  qed
  show ?thesis
    apply (intro exI [of _ v] conjI)
    subgoal by (rule v)
    subgoal by (rule len)
    subgoal by (rule seed)
    subgoal using cand by blast
    subgoal using nb by blast
    done
qed

theorem flood_fill_tolerance_boundary_witness:
  "(0::nat) < 2 \<and> (0::nat) < 1 \<and> length (twoPixels 32) = 4 * (2 * 1) \<and>
   diffSum (twoPixels 32) 0 1 = 96 \<and> diffSum (twoPixels 33) 0 1 = 97 \<and>
   adjacent4 2 1 0 1 \<and>
   (\<exists>v. floodRegion (2 * 1) 2 1 (twoPixels 32) 0 0 = Some v \<and> v ! 0 = 2 \<and> v ! 1 = 2) \<and>
   (\<exists>v. floodRegion (2 * 1) 2 1 (twoPixels 33) 0 0 = Some v \<and> v ! 0 = 2 \<and> v ! 1 \<noteq> 2)"
proof -
  have a: "(0::nat) < 2" and b: "(0::nat) < 1" by simp_all
  have l: "length (twoPixels r) = 4 * (2 * 1)" for r by (simp add: twoPixels_def)
  have d: "diffSum (twoPixels 32) 0 1 = 96" "diffSum (twoPixels 33) 0 1 = 97"
    by (simp_all add: diffSum_def twoPixels_def)
  have adj: "adjacent4 2 1 0 1" by (simp add: adjacent4_def)
  from flood_fill_tolerance_boundary [OF a b l, of 32]
  obtain v where v: "floodRegion (2 * 1) 2 1 (twoPixels 32) 0 0 = Some v" "v ! (0 * 2 + 0) = 2"
      "\<forall>p q. v ! p = 2 \<and> adjacent4 2 1 p q \<longrightarrow>
          (v ! q = 2 \<longleftrightarrow> diffSum (twoPixels 32) (0 * 2 + 0) q \<le> 3 * 32)"
    by blast
  have v0: "v ! 0 = 2" using v(2) by simp
  then have "v ! 1 = 2 \<longleftrightarrow> diffSum (twoPixels 32) (0 * 2 + 0) 1 \<le> 3 * 32"
    using v(3) adj by blast
  then have v1: "v ! 1 = 2" using d(1) by simp
  from flood_fill_tolerance_boundary [OF a b l, of 33]
  obtain u where u: "floodRegion (2 * 1) 2 1 (twoPixels 33) 0 0 = Some u" "u ! (0 * 2 + 0) = 2"
      "\<forall>p q. u ! p = 2 \<and> adjacent4 2 1 p q \<longrightarrow>
          (u ! q = 2 \<longleftrightarrow> diffSum (twoPixels 33) (0 * 2 + 0) q \<le> 3 * 32)"
    by blast
  have u0: "u ! 0 = 2" using u(2) by simp
  then have "u ! 1 = 2 \<longleftrightarrow> diffSum (twoPixels 33) (0 * 2 + 0) 1 \<le> 3 * 32"
    using u(3) adj by blast
  then have u1: "u ! 1 \<noteq> 2" using d(2) by simp
  show ?thesis
    using a b l [of 32] d adj v(1) v0 v1 u(1) u0 u1 by blast
qed

theorem flood_fill_visits_once_and_terminates_witness:
  "(0::nat) < 2 \<and> (0::nat) < 1 \<and>
   (\<exists>vis' pushed.
       fillStep 2 1 (twoPixels 32) (seedOf (twoPixels 32) 2 0 0) ([1, 0], [0])
         = (vis', butlast [0] @ pushed) \<and>
       distinct pushed \<and>
       (\<forall>m\<in>set pushed. adjacent4 2 1 (last [0]) m \<and> [1, 0 :: byte] ! m = 0 \<and> vis' ! m = 1)) \<and>
   (\<exists>v. floodRegion (2 * 1) 2 1 (twoPixels 32) 0 0 = Some v \<and> length v = 2 * 1)"
proof -
  have a: "(0::nat) < 2" and b: "(0::nat) < 1" by simp_all
  have h: "length [1, 0 :: byte] = 2 * 1 \<and> [0::nat] \<noteq> [] \<and> last [0::nat] < 2 * 1" by simp
  note t = flood_fill_visits_once_and_terminates [OF a b,
      of "twoPixels 32" "seedOf (twoPixels 32) 2 0 0"]
  from t h have
    "\<exists>vis' pushed.
       fillStep 2 1 (twoPixels 32) (seedOf (twoPixels 32) 2 0 0) ([1, 0], [0])
         = (vis', butlast [0] @ pushed) \<and>
       distinct pushed \<and>
       (\<forall>m\<in>set pushed. adjacent4 2 1 (last [0]) m \<and> [1, 0 :: byte] ! m = 0 \<and> vis' ! m = 1) \<and>
       (\<forall>i<2 * 1. [1, 0 :: byte] ! i \<noteq> 0 \<longrightarrow> vis' ! i \<noteq> 0)"
    by blast
  moreover from t have
    "\<exists>v. floodRegion (2 * 1) 2 1 (twoPixels 32) 0 0 = Some v \<and> length v = 2 * 1 \<and>
              (\<forall>k. floodRegion (2 * 1 + k) 2 1 (twoPixels 32) 0 0 = Some v)"
    by blast
  ultimately show ?thesis using a b by blast
qed

section \<open>Flood-fill selector: merging the region into the selection\<close>

lemma fold_cond_update:
  "length (fold (\<lambda>i m. if P i then m[i := b] else m) [0..<n] m) = length m \<and>
   (\<forall>j<length m. fold (\<lambda>i m. if P i then m[i := b] else m) [0..<n] m ! j
        = (if j < n \<and> P j then b else m ! j))"
proof (induction n)
  case 0
  then show ?case by simp
next
  case (Suc n)
  let ?f = "\<lambda>i m. if P i then m[i := b] else m"
  let ?F = "fold ?f [0..<n] m"
  have l: "length ?F = length m"
    and ih: "\<And>j. j < length m \<Longrightarrow> ?F ! j = (if j < n \<and> P j then b else m ! j)"
    using Suc by simp_all
  have e: "fold ?f [0..<Suc n] m = ?f n ?F" by simp
  have nth: "?f n ?F ! j = (if j < Suc n \<and> P j then b else m ! j)" if j: "j < length m" for j
  proof (cases "j = n")
    case True
    then show ?thesis using j l ih [OF j] by simp
  next
    case False
    then have "?f n ?F ! j = ?F ! j" by simp
    then show ?thesis using ih [OF j] False by (simp add: less_Suc_eq)
  qed
  show ?case
    unfolding e using l nth by simp
qed

lemma mergeRegion_length [simp]: "length (mergeRegion mode v m) = length m"
  by (cases mode) (simp_all add: mergeRegion_def fold_cond_update)

lemma mergeRegion_nth:
  "j < length m \<Longrightarrow>
   mergeRegion mode v m ! j =
     (if j < length v \<and> v ! j = 2 then (case mode of Include \<Rightarrow> 1 | Exclude \<Rightarrow> 0) else m ! j)"
  by (cases mode) (simp_all add: mergeRegion_def fold_cond_update)

lemma mergeRegion_idem: "mergeRegion Include v (mergeRegion Include v m) = mergeRegion Include v m"
  by (rule nth_equalityI) (simp_all add: mergeRegion_nth)

lemma mergeRegion_cancel:
  "j < length m \<Longrightarrow>
   mergeRegion Exclude v (mergeRegion Include v m) ! j =
     (if j < length v \<and> v ! j = 2 then 0 else m ! j)"
  by (simp add: mergeRegion_nth)

lemma list_ex_nth: "list_ex P xs \<longleftrightarrow> (\<exists>j<length xs. P (xs ! j))"
  by (simp add: list_ex_iff) (metis in_set_conv_nth)

lemma no_ones_cancel:
  assumes "\<not> list_ex (\<lambda>v. v = 1) m"
  shows "\<not> list_ex (\<lambda>v. v = 1) (mergeRegion Exclude v (mergeRegion Include v m))"
proof
  assume "list_ex (\<lambda>v. v = 1) (mergeRegion Exclude v (mergeRegion Include v m))"
  then obtain j where j: "j < length m"
      "mergeRegion Exclude v (mergeRegion Include v m) ! j = 1"
    by (auto simp: list_ex_nth)
  then have "m ! j = 1" using mergeRegion_cancel [OF j(1), of v] by (simp split: if_splits)
  then show False using assms j(1) by (auto simp: list_ex_nth)
qed

lemma floodFillSelect_in_bounds:
  assumes "imgRef s = Some img" "canvasRef s = Some c" "0 < cwidth c" "0 < cheight c"
    and "inBounds x y c"
    and "floodRegion (cwidth c * cheight c) (cwidth c) (cheight c)
           (raster img (cwidth c) (cheight c)) (nat (js_round x)) (nat (js_round y)) = Some v"
  shows "floodFillSelect x y s =
           Some (Inr (s\<lparr>selectionMaskRef :=
                          Some (mergeRegion (selectMode s) v (priorMask s (cwidth c * cheight c))),
                        hasSmartSelection :=
                          list_ex (\<lambda>b. b = 1)
                            (mergeRegion (selectMode s) v (priorMask s (cwidth c * cheight c)))\<rparr>))"
  using assms
  by (simp add: floodFillSelect_def inBounds_def Let_def priorMask_def split: option.split)

lemma priorMask_Some [simp]: "priorMask (s\<lparr>selectionMaskRef := Some m, hasSmartSelection := b\<rparr>) n = m"
  by (simp add: priorMask_def)

lemma priorMask_selectMode [simp]: "priorMask (s\<lparr>selectMode := e\<rparr>) n = priorMask s n"
  by (simp add: priorMask_def)

text \<open>
  Claim C6, as amended.  For a click inside the surface in include mode, a second fill
  at the same point gives the state of the first.  An exclude fill at the same point
  clears exactly the region: in the resulting mask every pixel of the region is 0 and
  every other pixel has the value it had before the include fill.  So when nothing was
  selected before (mask absent, or without a set pixel), the mask is left without a set
  pixel and the has-selection flag is false.
\<close>

theorem fill_merge_idempotent_and_clearing:
  assumes "imgRef s = Some img" "canvasRef s = Some c" "0 < cwidth c" "0 < cheight c"
    and "inBounds x y c" "selectMode s = Include"
  shows "\<exists>s1 s2 v m2.
           floodFillSelect x y s = Some (Inr s1) \<and>
           floodFillSelect x y s1 = Some (Inr s1) \<and>
           floodFillSelect x y (s1\<lparr>selectMode := Exclude\<rparr>) = Some (Inr s2) \<and>
           floodRegion (cwidth c * cheight c) (cwidth c) (cheight c)
             (raster img (cwidth c) (cheight c)) (nat (js_round x)) (nat (js_round y)) = Some v \<and>
           selectionMaskRef s2 = Some m2 \<and>
           length m2 = length (priorMask s (cwidth c * cheight c)) \<and>
           (\<forall>j<length m2.
              m2 ! j = (if j < length v \<and> v ! j = 2 then 0
                        else priorMask s (cwidth c * cheight c) ! j)) \<and>
           (\<not> list_ex (\<lambda>b. b = 1) (priorMask s (cwidth c * cheight c)) \<longrightarrow>
              \<not> list_ex (\<lambda>b. b = 1) m2 \<and> \<not> hasSmartSelection s2)"
proof -
  let ?w = "cwidth c" and ?h = "cheight c"
  let ?X = "nat (js_round x)" and ?Y = "nat (js_round y)"
  let ?m0 = "priorMask s (?w * ?h)"
  have X: "?X < ?w" and Y: "?Y < ?h" using assms(5) unfolding inBounds_def by linarith+
  from floodRegion_terminates [OF X Y, of "raster img ?w ?h"]
  obtain v where v: "floodRegion (?w * ?h) ?w ?h (raster img ?w ?h) ?X ?Y = Some v" by blast
  let ?m1 = "mergeRegion Include v ?m0"
  let ?s1 = "s\<lparr>selectionMaskRef := Some ?m1, hasSmartSelection := list_ex (\<lambda>b. b = 1) ?m1\<rparr>"
  let ?m2 = "mergeRegion Exclude v ?m1"
  let ?s2 = "?s1\<lparr>selectMode := Exclude, selectionMaskRef := Some ?m2,
                  hasSmartSelection := list_ex (\<lambda>b. b = 1) ?m2\<rparr>"
  have f1: "floodFillSelect x y s = Some (Inr ?s1)"
    using floodFillSelect_in_bounds [OF assms(1-5) v] assms(6) by simp
  have "floodFillSelect x y ?s1 =
          Some (Inr (?s1\<lparr>selectionMaskRef := Some (mergeRegion Include v ?m1),
                          hasSmartSelection := list_ex (\<lambda>b. b = 1) (mergeRegion Include v ?m1)\<rparr>))"
    using floodFillSelect_in_bounds [of ?s1 img c x y v] assms v by simp
  then have f2: "floodFillSelect x y ?s1 = Some (Inr ?s1)"
    by (simp add: mergeRegion_idem)
  have f3: "floodFillSelect x y (?s1\<lparr>selectMode := Exclude\<rparr>) = Some (Inr ?s2)"
    using floodFillSelect_in_bounds [of "?s1\<lparr>selectMode := Exclude\<rparr>" img c x y v] assms v
    by simp
  have m2: "selectionMaskRef ?s2 = Some ?m2" by simp
  have len: "length ?m2 = length ?m0" by simp
  have nth: "\<forall>j<length ?m2. ?m2 ! j = (if j < length v \<and> v ! j = 2 then 0 else ?m0 ! j)"
    using mergeRegion_cancel [of _ ?m0 v] by simp
  have emp: "\<not> list_ex (\<lambda>b. b = 1) ?m0 \<longrightarrow>
              \<not> list_ex (\<lambda>b. b = 1) ?m2 \<and> \<not> hasSmartSelection ?s2"
    using no_ones_cancel [of ?m0 v] by simp
  show ?thesis
    apply (rule exI [of _ ?s1], rule exI [of _ ?s2], rule exI [of _ v], rule exI [of _ ?m2])
    apply (intro conjI)
    subgoal by (rule f1)
    subgoal by (rule f2)
    subgoal by (rule f3)
    subgoal by (rule v)
    subgoal by (rule m2)
    subgoal by (rule len)
    subgoal by (rule nth)
    subgoal by (rule emp)
    done
qed

text \<open>
  The claim C6 says that include followed by exclude over the same region always leaves
  an empty mask.  On a surface of two pixels, one black and one white, select the white
  pixel first; an include fill and then an exclude fill at the black pixel leave the
  white pixel selected and the has-selection flag true.
\<close>

theorem fill_include_exclude_keeps_prior_selection_counterexample:
  "map_option (map_sum id (\<lambda>s. (selectionMaskRef s, hasSmartSelection s)))
     (floodFillSelect 1 0 (freshEditor (Some (blankCanvas 2 1)) (Some blackWhite)))
     = Some (Inr (Some [0, 1], True)) \<and>
   map_option (map_sum id (\<lambda>s. (selectionMaskRef s, hasSmartSelection s)))
     (bindFill (bindFill (floodFillSelect 1 0 (freshEditor (Some (blankCanvas 2 1)) (Some blackWhite)))
                 (floodFillSelect 0 0))
        (\<lambda>s. floodFillSelect 0 0 (s\<lparr>selectMode := Exclude\<rparr>)))
     = Some (Inr (Some [0, 1], True))"
  unfolding blackWhite_def by code_simp

theorem fill_merge_idempotent_and_clearing_witness:
  "inBounds 0 0 (blankCanvas 2 1) \<and>
   \<not> list_ex (\<lambda>b. b = 1)
       (priorMask (freshEditor (Some (blankCanvas 2 1)) (Some blackWhite)) (2 * 1)) \<and>
   (\<exists>s1 s2 m2.
      floodFillSelect 0 0 (freshEditor (Some (blankCanvas 2 1)) (Some blackWhite)) = Some (Inr s1) \<and>
      floodFillSelect 0 0 s1 = Some (Inr s1) \<and>
      floodFillSelect 0 0 (s1\<lparr>selectMode := Exclude\<rparr>) = Some (Inr s2) \<and>
      selectionMaskRef s2 = Some m2 \<and> \<not> list_ex (\<lambda>b. b = 1) m2 \<and> \<not> hasSmartSelection s2)"
proof -
  let ?s = "freshEditor (Some (blankCanvas 2 1)) (Some blackWhite)"
  have i: "imgRef ?s = Some blackWhite" and c: "canvasRef ?s = Some (blankCanvas 2 1)"
    and m: "selectMode ?s = Include"
    by (simp_all add: freshEditor_def)
  have w: "0 < cwidth (blankCanvas 2 1)" and h: "0 < cheight (blankCanvas 2 1)"
    and wh: "cwidth (blankCanvas 2 1) * cheight (blankCanvas 2 1) = 2 * 1"
    by (simp_all add: blankCanvas_def)
  have b: "inBounds 0 0 (blankCanvas 2 1)" by code_simp
  have e: "\<not> list_ex (\<lambda>b. b = 1) (priorMask ?s (2 * 1))"
    by (simp add: priorMask_def freshEditor_def list_ex_iff)
  note t = fill_merge_idempotent_and_clearing [OF i c w h b m]
  from t e show ?thesis
    unfolding wh using b by blast
qed

end
